theory Spec2Isabelle
  imports Complex_Main "HOL-Library.Char_ord" "HOL-Library.List_Lexorder"
begin

section \<open>Wire frames: \<open>util/parse_message.js\<close>\<close>

text \<open>
  A frame is a JavaScript string. The model keeps it as a list of characters; the only
  character the function looks at is the colon. \<open>String.prototype.indexOf\<close> answers
  \<open>-1\<close> when the character does not occur, and \<open>String.prototype.slice\<close> reads a
  negative index from the end of the string and clamps both ends to the string, so the
  index is an \<open>int\<close> and both rules are written out.
\<close>

fun indexOf :: "string \<Rightarrow> char \<Rightarrow> int" where
  "indexOf [] c = - 1"
| "indexOf (x # xs) c =
     (if x = c then 0
      else (let i = indexOf xs c in if i < 0 then - 1 else i + 1))"

definition relative_index :: "nat \<Rightarrow> int \<Rightarrow> nat" where
  "relative_index len i =
     (if i < 0 then nat (max (int len + i) 0) else min (nat i) len)"

definition slice :: "string \<Rightarrow> int \<Rightarrow> int \<Rightarrow> string" where
  "slice s start stop =
     (let from = relative_index (length s) start;
          upto = relative_index (length s) stop
      in take (upto - from) (drop from s))"

definition slice_from :: "string \<Rightarrow> int \<Rightarrow> string" where
  "slice_from s start = drop (relative_index (length s) start) s"

record message =
  command :: string
  data :: string

definition parse_message :: "string \<Rightarrow> message" where
  "parse_message frame =
     (let marker = indexOf frame (CHR '':'')
      in \<lparr> command = slice frame 0 marker, data = slice_from frame (marker + 1) \<rparr>)"


section \<open>JSON values and the operation algebra: \<open>jsondiff/jsondiff.js.flow\<close>\<close>

text \<open>
  Modelled from the spec: a JSON value (section 3). The declaration file types the data
  as \<open>{}\<close> and \<open>any\<close>. Numbers are exact rationals: the model does not cover the
  rounding of IEEE doubles. A mapping is an association list; the canonical form that the
  specification asks for has its keys strictly increasing in the lexicographic order.
\<close>

datatype Value =
    VNull
  | VBool bool
  | VNumber rat
  | VString string
  | VList "Value list"
  | VMapping "(string \<times> Value) list"

text \<open>
  The operations are the seven variants that the declaration file gives, with the tags
  \<open>+\<close>, \<open>-\<close>, \<open>r\<close>, \<open>I\<close>, \<open>L\<close>, \<open>O\<close> and \<open>d\<close>. A JavaScript object whose tag is none
  of these is \<open>UNKNOWN\<close> with its tag.
\<close>

datatype Operation =
    ADD Value
  | REMOVE
  | REPLACE Value
  | INCREMENT rat
  | LIST "(nat \<times> Operation) list"
  | OBJECT "(string \<times> Operation) list"
  | DMP string
  | UNKNOWN string

text \<open>
  \<open>ObjectOperationSet\<close> and \<open>ListOperationSet\<close> of the declaration file: operations
  by key and by index.
\<close>

type_synonym ObjectOperationSet = "(string \<times> Operation) list"

type_synonym ListOperationSet = "(nat \<times> Operation) list"

text \<open>
  Modelled from the spec: the two error kinds of the diff algebra (section 7).
\<close>

datatype diff_error = MalformedOperation | OperationPreconditionViolated

text \<open>
  Modelled from the spec: the text differ. \<open>diff_match_patch\<close> is a library that the
  sources do not contain, and the specification only names its two entry points, so both are
  parameters: \<open>patch_make s t\<close> is the patch text that leads from \<open>s\<close> to \<open>t\<close>, and
  \<open>patch_apply p s\<close> is the patched text, or \<open>None\<close> when the patch does not apply.
\<close>

record diff_match_patch =
  patch_make :: "string \<Rightarrow> string \<Rightarrow> string"
  patch_apply :: "string \<Rightarrow> string \<Rightarrow> string option"

text \<open>
  Modelled from the spec: the contract of the text differ, which the specification takes
  from the library (the canonical semantics of a patch): the patch made from \<open>s\<close> to
  \<open>t\<close> applies to \<open>s\<close> and gives \<open>t\<close>.
\<close>

definition dmp_round_trip :: "diff_match_patch \<Rightarrow> bool" where
  "dmp_round_trip D \<longleftrightarrow> (\<forall>s t. patch_apply D (patch_make D s t) s = Some t)"

text \<open>
  Modelled from the spec: a mapping in canonical form has strictly increasing keys, and
  so have the mappings inside it (section 4.1, Determinism).
\<close>

definition sorted_keys :: "(string \<times> 'v) list \<Rightarrow> bool" where
  "sorted_keys m \<longleftrightarrow> sorted_wrt (<) (map fst m)"

text \<open>
  Modelled from the spec: a value in canonical form has every mapping in it in canonical
  form.
\<close>

fun canonical :: "Value \<Rightarrow> bool" where
  "canonical (VMapping m) \<longleftrightarrow> sorted_keys m \<and> (\<forall>kv \<in> set m. canonical (snd kv))"
| "canonical (VList l) \<longleftrightarrow> (\<forall>v \<in> set l. canonical v)"
| "canonical _ \<longleftrightarrow> True"

text \<open>
  Modelled from the spec: writing the outcome of one operation back under its key.
  \<open>set_key\<close> replaces the value of a key that is present and otherwise inserts the key
  at its place in the key order; \<open>put\<close> deletes the key when the outcome is that the value
  is gone.
\<close>

fun set_key :: "string \<Rightarrow> 'v \<Rightarrow> (string \<times> 'v) list \<Rightarrow> (string \<times> 'v) list" where
  "set_key k v [] = [(k, v)]"
| "set_key k v ((k', v') # m) =
     (if k = k' then (k, v) # m
      else if k < k' then (k, v) # (k', v') # m
      else (k', v') # set_key k v m)"

text \<open>
  Modelled from the spec: deleting a key from a mapping.
\<close>

definition remove_key :: "string \<Rightarrow> (string \<times> 'v) list \<Rightarrow> (string \<times> 'v) list" where
  "remove_key k m = filter (\<lambda>kv. fst kv \<noteq> k) m"

text \<open>
  Modelled from the spec: writing an outcome back under a key, \<open>None\<close> being the
  outcome that the value is gone.
\<close>

definition put :: "string \<Rightarrow> 'v option \<Rightarrow> (string \<times> 'v) list \<Rightarrow> (string \<times> 'v) list" where
  "put k r m = (case r of None \<Rightarrow> remove_key k m | Some v \<Rightarrow> set_key k v m)"

text \<open>
  Modelled from the spec: the indices of a \<open>LIST\<close> operation refer to the list before
  the change. The list is laid out in slots, one for each index of the list and one for
  each further index that an operation names; an operation works on the slot of its index,
  a removed element leaves its slot empty, and the new list is what the slots hold, in
  order.
\<close>

fun list_extent :: "(nat \<times> 'a) list \<Rightarrow> nat" where
  "list_extent [] = 0"
| "list_extent (p # ops) = max (Suc (fst p)) (list_extent ops)"

text \<open>
  Modelled from the spec: the slots of a list for a set of list operations: the elements
  of the list, and an empty slot for each further index up to the extent of the
  operations.
\<close>

definition slots :: "(nat \<times> 'a) list \<Rightarrow> 'v list \<Rightarrow> 'v option list" where
  "slots ops l = map Some l @ replicate (list_extent ops - length l) None"

text \<open>
  Modelled from the spec: the list that the slots hold, in order.
\<close>

definition compact :: "'v option list \<Rightarrow> 'v list" where
  "compact s = List.map_filter (\<lambda>x. x) s"

text \<open>
  Modelled from the spec: applying operations (section 3, Operation, and section 4.1,
  \<open>apply_object_diff\<close>); \<open>jsondiff.js\<close> itself is not among the sources. The target of
  an operation is the value at its path, \<open>None\<close> when the path is absent; the outcome is
  the value that is at the path afterwards. \<open>ADD\<close> needs an absent path, every other
  operation a present one of the kind it works on, and an unknown tag is malformed. The
  operations of a mapping are applied one after the other to the copy; those of a list in
  descending order of their indices, so the ones later in the set go first.
\<close>

function (sequential) apply_diff ::
    "diff_match_patch \<Rightarrow> Operation \<Rightarrow> Value option \<Rightarrow> diff_error + Value option"
  and apply_object_ops ::
    "diff_match_patch \<Rightarrow> ObjectOperationSet \<Rightarrow> (string \<times> Value) list
      \<Rightarrow> diff_error + (string \<times> Value) list"
  and apply_list_ops ::
    "diff_match_patch \<Rightarrow> ListOperationSet \<Rightarrow> Value option list
      \<Rightarrow> diff_error + Value option list"
where
  "apply_diff D (ADD v) target =
     (case target of
        None \<Rightarrow> Inr (Some v)
      | Some _ \<Rightarrow> Inl OperationPreconditionViolated)"
| "apply_diff D REMOVE target =
     (case target of
        None \<Rightarrow> Inl OperationPreconditionViolated
      | Some _ \<Rightarrow> Inr None)"
| "apply_diff D (REPLACE v) target =
     (case target of
        None \<Rightarrow> Inl OperationPreconditionViolated
      | Some _ \<Rightarrow> Inr (Some v))"
| "apply_diff D (INCREMENT n) target =
     (case target of
        Some (VNumber x) \<Rightarrow> Inr (Some (VNumber (x + n)))
      | _ \<Rightarrow> Inl OperationPreconditionViolated)"
| "apply_diff D (OBJECT ops) target =
     (case target of
        Some (VMapping m) \<Rightarrow>
          (case apply_object_ops D ops m of
             Inl e \<Rightarrow> Inl e
           | Inr m' \<Rightarrow> Inr (Some (VMapping m')))
      | _ \<Rightarrow> Inl OperationPreconditionViolated)"
| "apply_diff D (LIST ops) target =
     (case target of
        Some (VList l) \<Rightarrow>
          (case apply_list_ops D ops (slots ops l) of
             Inl e \<Rightarrow> Inl e
           | Inr s \<Rightarrow> Inr (Some (VList (compact s))))
      | _ \<Rightarrow> Inl OperationPreconditionViolated)"
| "apply_diff D (DMP p) target =
     (case target of
        Some (VString s) \<Rightarrow>
          (case patch_apply D p s of
             None \<Rightarrow> Inl OperationPreconditionViolated
           | Some t \<Rightarrow> Inr (Some (VString t)))
      | _ \<Rightarrow> Inl OperationPreconditionViolated)"
| "apply_diff D (UNKNOWN t) target = Inl MalformedOperation"
| "apply_object_ops D [] m = Inr m"
| "apply_object_ops D ((k, op) # ops) m =
     (case apply_diff D op (map_of m k) of
        Inl e \<Rightarrow> Inl e
      | Inr r \<Rightarrow> apply_object_ops D ops (put k r m))"
| "apply_list_ops D [] s = Inr s"
| "apply_list_ops D ((i, op) # ops) s =
     (case apply_list_ops D ops s of
        Inl e \<Rightarrow> Inl e
      | Inr s' \<Rightarrow>
          (if i < length s' then
             (case apply_diff D op (s' ! i) of
                Inl e \<Rightarrow> Inl e
              | Inr r \<Rightarrow> Inr (s'[i := r]))
           else Inl OperationPreconditionViolated))"
  by pat_completeness auto

termination
  by (relation "measure (\<lambda>p. case p of
        Inl (D, op, target) \<Rightarrow> size op
      | Inr (Inl (D, ops, m)) \<Rightarrow> size_list (size_prod (\<lambda>_. 0) size) ops
      | Inr (Inr (D, ops, s)) \<Rightarrow> size_list (size_prod (\<lambda>_. 0) size) ops)") auto

text \<open>
  Modelled from the spec: an operation set is malformed when one of its operations, at
  any depth, has an unknown tag.
\<close>

fun unknown_tag :: "Operation \<Rightarrow> bool" where
  "unknown_tag (UNKNOWN t) \<longleftrightarrow> True"
| "unknown_tag (OBJECT ops) \<longleftrightarrow> (\<exists>p \<in> set ops. unknown_tag (snd p))"
| "unknown_tag (LIST ops) \<longleftrightarrow> (\<exists>p \<in> set ops. unknown_tag (snd p))"
| "unknown_tag _ \<longleftrightarrow> False"

text \<open>
  Modelled from the spec: an operation set is malformed when one of its operations has an
  unknown tag, at any depth.
\<close>

definition malformed :: "ObjectOperationSet \<Rightarrow> bool" where
  "malformed ops \<longleftrightarrow> (\<exists>p \<in> set ops. unknown_tag (snd p))"

text \<open>
  Modelled from the spec: \<open>apply_object_diff(ops, base)\<close> on values (section 4.1). An
  operation set with an unknown tag fails with \<open>MalformedOperation\<close> whatever the base
  is; otherwise each operation is applied to (a copy of) the base.
\<close>

definition apply_object_diff ::
    "diff_match_patch \<Rightarrow> ObjectOperationSet \<Rightarrow> (string \<times> Value) list
      \<Rightarrow> diff_error + (string \<times> Value) list" where
  "apply_object_diff D ops base =
     (if malformed ops then Inl MalformedOperation else apply_object_ops D ops base)"

text \<open>
  Modelled from the spec: \<open>apply_object_diff\<close> on objects that are held by reference
  (section 4.1: produce a deep copy of the base, apply each operation, never mutate the
  base). The heap is the list of the objects allocated so far and a reference is an index
  into it. \<open>deep_copy\<close> allocates a new object with the contents of the base;
  \<open>apply_each\<close> writes the outcome of each operation into the object at the reference
  it is given. The answer is the reference of the new object.
\<close>

type_synonym heap = "(string \<times> Value) list list"

text \<open>
  Modelled from the spec: the deep copy of the object at a reference is a new object,
  at a new reference, with the same contents.
\<close>

definition deep_copy :: "nat \<Rightarrow> heap \<Rightarrow> nat \<times> heap" where
  "deep_copy r h = (length h, h @ [h ! r])"

text \<open>
  Modelled from the spec: applying each operation to the object at a reference, in
  place. The first operation that fails ends the run.
\<close>

fun apply_each ::
    "diff_match_patch \<Rightarrow> ObjectOperationSet \<Rightarrow> nat \<Rightarrow> heap \<Rightarrow> (diff_error + unit) \<times> heap" where
  "apply_each D [] c h = (Inr (), h)"
| "apply_each D ((k, op) # ops) c h =
     (case apply_diff D op (map_of (h ! c) k) of
        Inl e \<Rightarrow> (Inl e, h)
      | Inr r \<Rightarrow> apply_each D ops c (h[c := put k r (h ! c)]))"

text \<open>
  Modelled from the spec: \<open>apply_object_diff\<close> on a base that is held by reference:
  the operation set is checked for unknown tags, the base is copied, and the operations
  are applied to the copy, whose reference is the result.
\<close>

definition apply_object_diff_heap ::
    "diff_match_patch \<Rightarrow> ObjectOperationSet \<Rightarrow> nat \<Rightarrow> heap \<Rightarrow> (diff_error + nat) \<times> heap" where
  "apply_object_diff_heap D ops base h =
     (if malformed ops then (Inl MalformedOperation, h)
      else (case deep_copy base h of
              (c, h1) \<Rightarrow>
                (case apply_each D ops c h1 of
                   (Inl e, h2) \<Rightarrow> (Inl e, h2)
                 | (Inr _, h2) \<Rightarrow> (Inr c, h2))))"

text \<open>
  Modelled from the spec: the length of a longest common subsequence, which the list diff
  uses to decide whether an element of the old list takes part in the alignment
  (section 4.1: an LCS-style alignment).
\<close>

fun lcs_length :: "'a list \<Rightarrow> 'a list \<Rightarrow> nat" where
  "lcs_length [] ys = 0"
| "lcs_length (x # xs) [] = 0"
| "lcs_length (x # xs) (y # ys) =
     (if x = y then Suc (lcs_length xs ys)
      else max (lcs_length xs (y # ys)) (lcs_length (x # xs) ys))"

text \<open>
  Modelled from the spec: the keys that only the modified mapping has are added with
  their values (section 4.1: a key present in exactly one side).
\<close>

definition additions :: "(string \<times> Value) list \<Rightarrow> (string \<times> Value) list \<Rightarrow> ObjectOperationSet" where
  "additions a b = [(k, ADD v). (k, v) \<leftarrow> b, map_of a k = None]"

text \<open>
  Modelled from the spec: computing a diff (section 4.1, \<open>object_diff\<close>). A key on one
  side only gives \<open>REMOVE\<close> or \<open>ADD\<close>; a key on both sides with equal values gives
  nothing; unequal values of one kind are diffed in turn (mappings to \<open>OBJECT\<close>, lists to
  \<open>LIST\<close>, two non-empty strings to \<open>DMP\<close>, numbers to \<open>INCREMENT\<close> of the
  difference); a change of kind, or a nested diff that is empty, gives \<open>REPLACE\<close>. The
  operations come out in the order of their keys. In a list the elements are aligned from
  the front: equal heads are matched; an old element is removed when dropping it keeps a
  longer common subsequence; otherwise the old element is changed into the new one; what
  is left of the old list is removed and what is left of the new list is added at the
  indices after the end of the old list.
\<close>

function (sequential) diff_value :: "diff_match_patch \<Rightarrow> Value \<Rightarrow> Value \<Rightarrow> Operation"
  and object_diff ::
    "diff_match_patch \<Rightarrow> (string \<times> Value) list \<Rightarrow> (string \<times> Value) list \<Rightarrow> ObjectOperationSet"
  and changes ::
    "diff_match_patch \<Rightarrow> (string \<times> Value) list \<Rightarrow> (string \<times> Value) list \<Rightarrow> ObjectOperationSet"
  and list_diff ::
    "diff_match_patch \<Rightarrow> nat \<Rightarrow> Value list \<Rightarrow> Value list \<Rightarrow> ListOperationSet"
where
  "diff_value D (VMapping a) y =
     (case y of
        VMapping b \<Rightarrow>
          (let sub = object_diff D a b
           in if sub = [] then REPLACE y else OBJECT sub)
      | _ \<Rightarrow> REPLACE y)"
| "diff_value D (VList xs) y =
     (case y of
        VList ys \<Rightarrow>
          (let sub = list_diff D 0 xs ys
           in if sub = [] then REPLACE y else LIST sub)
      | _ \<Rightarrow> REPLACE y)"
| "diff_value D (VString s) y =
     (case y of
        VString t \<Rightarrow>
          (if s \<noteq> [] \<and> t \<noteq> [] then DMP (patch_make D s t) else REPLACE y)
      | _ \<Rightarrow> REPLACE y)"
| "diff_value D (VNumber m) y =
     (case y of
        VNumber n \<Rightarrow> INCREMENT (n - m)
      | _ \<Rightarrow> REPLACE y)"
| "diff_value D (VBool p) y = REPLACE y"
| "diff_value D VNull y = REPLACE y"
| "object_diff D a b = sort_key fst (changes D a b @ additions a b)"
| "changes D [] b = []"
| "changes D ((k, x) # a) b =
     (case map_of b k of
        None \<Rightarrow> (k, REMOVE) # changes D a b
      | Some y \<Rightarrow>
          (if x = y then changes D a b
           else (k, diff_value D x y) # changes D a b))"
| "list_diff D i [] ys = zip [i ..< i + length ys] (map ADD ys)"
| "list_diff D i (x # xs) [] = (i, REMOVE) # list_diff D (Suc i) xs []"
| "list_diff D i (x # xs) (y # ys) =
     (if x = y then list_diff D (Suc i) xs ys
      else if lcs_length xs ys < lcs_length xs (y # ys)
      then (i, REMOVE) # list_diff D (Suc i) xs (y # ys)
      else (i, diff_value D x y) # list_diff D (Suc i) xs ys)"
  by pat_completeness auto

termination
  by (relation "measure (\<lambda>p. case p of
        Inl (Inl (D, x, y)) \<Rightarrow> 2 * size x
      | Inl (Inr (D, a, b)) \<Rightarrow> 2 * size_list (size_prod (\<lambda>_. 0) size) a + 1
      | Inr (Inl (D, a, b)) \<Rightarrow> 2 * size_list (size_prod (\<lambda>_. 0) size) a
      | Inr (Inr (D, i, xs, ys)) \<Rightarrow> 2 * size_list size xs)") auto

text \<open>
  Modelled from the spec: an operation set is a mapping from keys (or indices) to
  operations, so no key occurs twice in it, at any depth.
\<close>

fun unique_keys :: "Operation \<Rightarrow> bool" where
  "unique_keys (OBJECT ops) \<longleftrightarrow> distinct (map fst ops) \<and> (\<forall>p \<in> set ops. unique_keys (snd p))"
| "unique_keys (LIST ops) \<longleftrightarrow> distinct (map fst ops) \<and> (\<forall>p \<in> set ops. unique_keys (snd p))"
| "unique_keys _ \<longleftrightarrow> True"

text \<open>
  Modelled from the spec: the three precondition violations that section 4.1 names. An
  operation with the target at its path violates a precondition when it is \<open>REMOVE\<close> of
  an absent path, \<open>ADD\<close> to a present path or \<open>INCREMENT\<close> of a value that is not a
  number, or when it is an \<open>OBJECT\<close> or \<open>LIST\<close> operation on a mapping or list in which
  one of its operations does so.
\<close>

fun violates :: "Operation \<Rightarrow> Value option \<Rightarrow> bool" where
  "violates REMOVE target \<longleftrightarrow> target = None"
| "violates (ADD v) target \<longleftrightarrow> target \<noteq> None"
| "violates (INCREMENT n) target \<longleftrightarrow>
     (case target of None \<Rightarrow> False | Some (VNumber x) \<Rightarrow> False | Some _ \<Rightarrow> True)"
| "violates (OBJECT ops) target \<longleftrightarrow>
     (case target of
        Some (VMapping m) \<Rightarrow> (\<exists>p \<in> set ops. violates (snd p) (map_of m (fst p)))
      | _ \<Rightarrow> False)"
| "violates (LIST ops) target \<longleftrightarrow>
     (case target of
        Some (VList l) \<Rightarrow> (\<exists>p \<in> set ops. violates (snd p) (slots ops l ! fst p))
      | _ \<Rightarrow> False)"
| "violates _ target \<longleftrightarrow> False"




text \<open>
  Modelled from the spec: what a cell of the rule table says: keep the local operation,
  drop it, recurse, rebase the text patch, or n/a.
\<close>

datatype rule = Keep | Drop | Recurse | Rebase | NotApplicable








text \<open>
  Modelled from the spec: one text differ that meets the contract, used to run the
  functions on concrete values. Its patch text is the new text itself.
\<close>

definition whole_text :: diff_match_patch where
  "whole_text = \<lparr> patch_make = (\<lambda>s t. t), patch_apply = (\<lambda>p s. Some p) \<rparr>"



section \<open>The bucket: \<open>bucket.js\<close>\<close>

text \<open>
  JavaScript values that the bucket hands on without looking inside: \<open>undefined\<close>, JSON
  data (\<open>null\<close> is \<open>Json VNull\<close>), a bucket object and an error value. A bucket object is
  \<open>{ id, data, isIndexing }\<close>.
\<close>

datatype error = Error string

record bucket_object =
  bo_id :: string
  bo_data :: Value
  bo_isIndexing :: bool

datatype jsvalue =
    Undefined
  | Json Value
  | BucketObject bucket_object
  | ErrorValue error

text \<open>JavaScript's truthiness, as \<open>if ( localState )\<close> and \<open>if ( object )\<close> test it.\<close>

fun truthy :: "jsvalue \<Rightarrow> bool" where
  "truthy Undefined \<longleftrightarrow> False"
| "truthy (Json VNull) \<longleftrightarrow> False"
| "truthy (Json (VBool p)) \<longleftrightarrow> p"
| "truthy (Json (VNumber n)) \<longleftrightarrow> n \<noteq> 0"
| "truthy (Json (VString s)) \<longleftrightarrow> s \<noteq> []"
| "truthy (Json (VList l)) \<longleftrightarrow> True"
| "truthy (Json (VMapping m)) \<longleftrightarrow> True"
| "truthy (BucketObject obj) \<longleftrightarrow> True"
| "truthy (ErrorValue e) \<longleftrightarrow> True"

text \<open>
  An optional argument of \<open>update\<close> is a falsy value (\<open>undefined\<close> when it is left
  out), a function, or an object. The remote update info is
  \<open>{ original, patch, isIndexing }\<close> and the options are \<open>{ sync }\<close>, where \<open>sync\<close> may
  be missing from the object.
\<close>

datatype callback = Callback nat

datatype 'a arg = Falsy | Function callback | Obj 'a

record remote_info =
  ri_original :: jsvalue
  ri_patch :: ObjectOperationSet
  ri_isIndexing :: bool

record options =
  sync :: "bool option"

text \<open>
  What a bucket operation does to the world is the list of its effects, in the order in
  which they happen: calls of the store, calls of the channel, events the bucket emits,
  calls of the callback of the old API, and calls of the change resolver.
\<close>

datatype event =
    EvUpdate string Value "remote_info arg"
  | EvRemove string
  | EvIndexing

datatype effect =
    StoreGet string
  | StoreUpdate string Value bool
  | StoreRemove string
  | StoreFind jsvalue
  | ChannelUpdate bucket_object "bool option"
  | ChannelGetVersion string
  | ChannelGetRevisions string
  | ChannelHasLocalChanges
  | ChannelReload
  | ChannelRemove string
  | Emit event
  | Called callback "error option" "jsvalue option"
  | Resolver string Value Value ObjectOperationSet

text \<open>
  A promise is modelled by how it settles, and a task is a promise together with the
  effects that happen until it settles. \<open>then_promise\<close> is \<open>promise.then( f )\<close>: a
  rejection skips \<open>f\<close>.
\<close>

datatype 'a promise = Fulfilled 'a | Rejected error

type_synonym 'a task = "effect list \<times> 'a promise"

definition then_promise :: "'a task \<Rightarrow> ('a \<Rightarrow> 'b task) \<Rightarrow> 'b task" where
  "then_promise t f =
     (case t of
        (tr, Rejected e) \<Rightarrow> (tr, Rejected e)
      | (tr, Fulfilled x) \<Rightarrow> (case f x of (tr', p) \<Rightarrow> (tr @ tr', p)))"

text \<open>
  The store and the channel are collaborators of the bucket; the store is supplied by the
  application and \<open>channel.js\<close> is not among the sources. Each of their methods is a
  parameter that gives the outcome of the call: an error or a result.
\<close>

record store =
  store_get :: "string \<Rightarrow> error + bucket_object option"
  store_update :: "string \<Rightarrow> Value \<Rightarrow> bool \<Rightarrow> error + bucket_object"
  store_remove :: "string \<Rightarrow> error + jsvalue"
  store_find :: "jsvalue \<Rightarrow> error + jsvalue"

record channel =
  channel_update :: "bucket_object \<Rightarrow> bool option \<Rightarrow> error + bucket_object"
  channel_getVersion :: "string \<Rightarrow> error + jsvalue"
  channel_getRevisions :: "string \<Rightarrow> error + jsvalue"
  channel_hasLocalChanges :: "error + jsvalue"

record bucket =
  bucket_store :: store
  bucket_channel :: channel
  isIndexing :: bool
  changeResolver :: "(string \<Rightarrow> Value \<Rightarrow> Value \<Rightarrow> ObjectOperationSet \<Rightarrow> error + jsvalue) option"

text \<open>
  \<open>callbackAsPromise\<close>: the task calls the store, and the store answers through a
  callback, with an error (the promise rejects) or with a result (it resolves).
\<close>

definition callbackAsPromise :: "effect \<Rightarrow> error + 'a \<Rightarrow> 'a task" where
  "callbackAsPromise call outcome =
     ([call], case outcome of Inl e \<Rightarrow> Rejected e | Inr result \<Rightarrow> Fulfilled result)"

text \<open>
  \<open>deprecateCallback\<close>: without a callback the promise is passed through. With one, a
  result goes to the callback as \<open>callback( null, result )\<close> and the promise resolves with
  it; an error goes to the callback as \<open>callback( error )\<close> and the rejection handler
  returns the error, so the promise resolves with the error.
\<close>

definition deprecateCallback :: "callback option \<Rightarrow> jsvalue task \<Rightarrow> jsvalue task" where
  "deprecateCallback cb promise =
     (case cb of
        None \<Rightarrow> promise
      | Some f \<Rightarrow>
          (case promise of
             (tr, Fulfilled result) \<Rightarrow> (tr @ [Called f None (Some result)], Fulfilled result)
           | (tr, Rejected e) \<Rightarrow> (tr @ [Called f (Some e) None], Fulfilled (ErrorValue e))))"

text \<open>\<open>promiseAPI\<close>: the four methods of the store as promises.\<close>

definition storeAPI_get :: "bucket \<Rightarrow> string \<Rightarrow> bucket_object option task" where
  "storeAPI_get b i = callbackAsPromise (StoreGet i) (store_get (bucket_store b) i)"

definition storeAPI_update :: "bucket \<Rightarrow> string \<Rightarrow> Value \<Rightarrow> bool \<Rightarrow> bucket_object task" where
  "storeAPI_update b i object ix =
     callbackAsPromise (StoreUpdate i object ix) (store_update (bucket_store b) i object ix)"

definition storeAPI_remove :: "bucket \<Rightarrow> string \<Rightarrow> jsvalue task" where
  "storeAPI_remove b i = callbackAsPromise (StoreRemove i) (store_remove (bucket_store b) i)"

definition storeAPI_find :: "bucket \<Rightarrow> jsvalue \<Rightarrow> jsvalue task" where
  "storeAPI_find b query = callbackAsPromise (StoreFind query) (store_find (bucket_store b) query)"

text \<open>The value of an optional bucket object: \<open>null\<close> or \<open>undefined\<close> when there is none.\<close>

definition object_value :: "bucket_object option \<Rightarrow> jsvalue" where
  "object_value obj = (case obj of None \<Rightarrow> Undefined | Some x \<Rightarrow> BucketObject x)"

text \<open>\<open>Bucket.prototype.get\<close>.\<close>

definition get :: "bucket \<Rightarrow> string \<Rightarrow> callback option \<Rightarrow> jsvalue task" where
  "get b i cb =
     deprecateCallback cb
       (then_promise (storeAPI_get b i) (\<lambda>obj. ([], Fulfilled (object_value obj))))"

text \<open>
  \<open>Bucket.prototype.update\<close>. The callback may be the third or the fourth argument; in
  both cases the options become \<open>{ sync: true }\<close>, as they do when the options are falsy.
  The store is written, its object goes to the channel with \<open>options.sync\<close>, and the
  event carries the data of the object that the channel answers with and the third
  argument as it was passed.
\<close>

definition update_callback ::
    "remote_info arg \<Rightarrow> options arg \<Rightarrow> callback option \<Rightarrow> callback option" where
  "update_callback remoteUpdateInfo opts cb =
     (case remoteUpdateInfo of
        Function f \<Rightarrow> Some f
      | _ \<Rightarrow> (case opts of Function g \<Rightarrow> Some g | _ \<Rightarrow> cb))"

definition update_options :: "remote_info arg \<Rightarrow> options arg \<Rightarrow> options" where
  "update_options remoteUpdateInfo opts =
     (case remoteUpdateInfo of
        Function f \<Rightarrow> \<lparr> sync = Some True \<rparr>
      | _ \<Rightarrow>
          (case opts of
             Function g \<Rightarrow> \<lparr> sync = Some True \<rparr>
           | Falsy \<Rightarrow> \<lparr> sync = Some True \<rparr>
           | Obj given \<Rightarrow> given))"

definition channel_update_promise :: "bucket \<Rightarrow> bucket_object \<Rightarrow> bool option \<Rightarrow> bucket_object task" where
  "channel_update_promise b obj flag =
     ([ChannelUpdate obj flag],
      case channel_update (bucket_channel b) obj flag of
        Inl e \<Rightarrow> Rejected e
      | Inr result \<Rightarrow> Fulfilled result)"

definition update_task ::
    "bucket \<Rightarrow> string \<Rightarrow> Value \<Rightarrow> remote_info arg \<Rightarrow> bool option \<Rightarrow> jsvalue task" where
  "update_task b i object remoteUpdateInfo flag =
     then_promise
       (then_promise (storeAPI_update b i object (isIndexing b))
          (\<lambda>bucketObject. channel_update_promise b bucketObject flag))
       (\<lambda>bucketObject.
          ([Emit (EvUpdate i (bo_data bucketObject) remoteUpdateInfo)],
           Fulfilled (BucketObject bucketObject)))"

definition update ::
    "bucket \<Rightarrow> string \<Rightarrow> Value \<Rightarrow> remote_info arg \<Rightarrow> options arg \<Rightarrow> callback option
      \<Rightarrow> jsvalue task" where
  "update b i object remoteUpdateInfo opts cb =
     deprecateCallback (update_callback remoteUpdateInfo opts cb)
       (update_task b i object remoteUpdateInfo (sync (update_options remoteUpdateInfo opts)))"

text \<open>
  \<open>Bucket.prototype.add\<close>. The identifier comes from \<open>uuid()\<close> and is a parameter here;
  the callback is handed to \<open>update\<close> as its third argument.
\<close>

definition add :: "bucket \<Rightarrow> string \<Rightarrow> Value \<Rightarrow> callback option \<Rightarrow> jsvalue task" where
  "add b uuid object cb =
     update b uuid object (case cb of None \<Rightarrow> Falsy | Some f \<Rightarrow> Function f) Falsy None"

text \<open>\<open>Bucket.prototype.hasLocalChanges\<close>, \<open>getVersion\<close> and \<open>getRevisions\<close>.\<close>

definition channel_promise :: "effect \<Rightarrow> error + jsvalue \<Rightarrow> jsvalue task" where
  "channel_promise call outcome =
     ([call], case outcome of Inl e \<Rightarrow> Rejected e | Inr result \<Rightarrow> Fulfilled result)"

definition hasLocalChanges :: "bucket \<Rightarrow> callback option \<Rightarrow> jsvalue task" where
  "hasLocalChanges b cb =
     deprecateCallback cb
       (channel_promise ChannelHasLocalChanges (channel_hasLocalChanges (bucket_channel b)))"

definition getVersion :: "bucket \<Rightarrow> string \<Rightarrow> callback option \<Rightarrow> jsvalue task" where
  "getVersion b i cb =
     deprecateCallback cb
       (channel_promise (ChannelGetVersion i) (channel_getVersion (bucket_channel b) i))"

definition getRevisions :: "bucket \<Rightarrow> string \<Rightarrow> callback option \<Rightarrow> jsvalue task" where
  "getRevisions b i cb =
     deprecateCallback cb
       (channel_promise (ChannelGetRevisions i) (channel_getRevisions (bucket_channel b) i))"

text \<open>
  \<open>Bucket.prototype.touch\<close>: the object is read from the store and, when there is one,
  handed to \<open>update\<close> with no further argument.
\<close>

definition touch :: "bucket \<Rightarrow> string \<Rightarrow> callback option \<Rightarrow> jsvalue task" where
  "touch b i cb =
     deprecateCallback cb
       (then_promise (storeAPI_get b i)
          (\<lambda>obj. case obj of
                    Some x \<Rightarrow> update b (bo_id x) (bo_data x) Falsy Falsy None
                  | None \<Rightarrow> ([], Fulfilled Undefined)))"

text \<open>\<open>Bucket.prototype.remove\<close> and \<open>Bucket.prototype.find\<close>.\<close>

definition remove :: "bucket \<Rightarrow> string \<Rightarrow> callback option \<Rightarrow> jsvalue task" where
  "remove b i cb =
     deprecateCallback cb
       (then_promise (storeAPI_remove b i)
          (\<lambda>result. ([Emit (EvRemove i), ChannelRemove i], Fulfilled result)))"

definition find :: "bucket \<Rightarrow> jsvalue \<Rightarrow> callback option \<Rightarrow> jsvalue task" where
  "find b query cb = deprecateCallback cb (storeAPI_find b query)"

text \<open>\<open>Bucket.prototype.reload\<close> calls the channel and returns nothing.\<close>

definition reload :: "bucket \<Rightarrow> effect list" where
  "reload b = [ChannelReload]"

text \<open>
  \<open>Bucket.prototype.beforeNetworkChange\<close> stores the resolver. A falsy argument is
  \<open>None\<close>: the subscriber below tests the field for truthiness.
\<close>

definition beforeNetworkChange ::
    "bucket \<Rightarrow> (string \<Rightarrow> Value \<Rightarrow> Value \<Rightarrow> ObjectOperationSet \<Rightarrow> error + jsvalue) option
      \<Rightarrow> bucket" where
  "beforeNetworkChange b resolver = b\<lparr> changeResolver := resolver \<rparr>"

text \<open>
  \<open>localStateForKey\<close> and the subscriber that \<open>setChannel\<close> hands to
  \<open>channel.beforeNetworkChange\<close>. The arguments after the identifier are those of a
  \<open>NetworkChangeResolver\<close>: the new data, the base and the patch. The resolver's answer
  is what its result or its promise settles to; a truthy answer is the local state, and
  for any other answer the local state is read from the store.
\<close>

definition localStateForKey :: "bucket \<Rightarrow> string \<Rightarrow> jsvalue task" where
  "localStateForKey b i =
     then_promise (get b i None)
       (\<lambda>object. ([], Fulfilled (case object of
                                   BucketObject x \<Rightarrow> Json (bo_data x)
                                 | _ \<Rightarrow> Undefined)))"

definition networkChangeSubscriber ::
    "bucket \<Rightarrow> string \<Rightarrow> Value \<Rightarrow> Value \<Rightarrow> ObjectOperationSet \<Rightarrow> jsvalue task" where
  "networkChangeSubscriber b i object base patch =
     (let resolved =
            (case changeResolver b of
               Some resolver \<Rightarrow>
                 ([Resolver i object base patch],
                  case resolver i object base patch of
                    Inl e \<Rightarrow> Rejected e
                  | Inr localState \<Rightarrow> Fulfilled localState)
             | None \<Rightarrow> ([], Fulfilled (Json VNull)))
      in then_promise resolved
           (\<lambda>localState.
              if truthy localState then ([], Fulfilled localState)
              else localStateForKey b i))"

text \<open>The listeners that the bucket registers on its channel.\<close>

definition onChannelUpdate ::
    "bucket \<Rightarrow> string \<Rightarrow> Value \<Rightarrow> jsvalue \<Rightarrow> ObjectOperationSet \<Rightarrow> bool \<Rightarrow> jsvalue task" where
  "onChannelUpdate b i object original patch ix =
     update b i object
       (Obj \<lparr> ri_original = original, ri_patch = patch, ri_isIndexing = ix \<rparr>)
       (Obj \<lparr> sync = Some False \<rparr>) None"

definition onChannelIndexingStateChange :: "bucket \<Rightarrow> bool \<Rightarrow> effect list \<times> bucket" where
  "onChannelIndexingStateChange b ix =
     (if ix then [Emit EvIndexing] else [], b\<lparr> isIndexing := ix \<rparr>)"

definition onChannelRemove :: "bucket \<Rightarrow> string \<Rightarrow> jsvalue task" where
  "onChannelRemove b i = remove b i None"

text \<open>
  Modelled from the spec: how the channel delivers an inbound change (section 4.3, steps
  3 and 4); \<open>channel.js\<close> is not among the sources. Before it applies the change the
  channel calls the subscriber that the bucket installed, which gives the local state;
  then it emits \<open>update\<close> with the new data, the local state as the original and the patch,
  which the bucket's listener turns into a write of the store.
\<close>

definition receive_network_change ::
    "bucket \<Rightarrow> string \<Rightarrow> Value \<Rightarrow> Value \<Rightarrow> ObjectOperationSet \<Rightarrow> jsvalue task" where
  "receive_network_change b i object base patch =
     then_promise (networkChangeSubscriber b i object base patch)
       (\<lambda>localState. onChannelUpdate b i object localState patch (isIndexing b))"

text \<open>
  The nine operations that take a callback, each in the forms in which the callback can
  be passed: \<open>update\<close> takes it as its third, fourth or fifth argument.
\<close>

datatype call =
    Get string
  | Update3 string Value
  | Update4 string Value "remote_info option"
  | Update5 string Value "remote_info option" "options option"
  | Add string Value
  | Remove string
  | Find jsvalue
  | GetVersion string
  | HasLocalChanges
  | GetRevisions string
  | Touch string

definition optional :: "'a option \<Rightarrow> 'a arg" where
  "optional x = (case x of None \<Rightarrow> Falsy | Some y \<Rightarrow> Obj y)"

definition as_function :: "callback option \<Rightarrow> 'a arg" where
  "as_function cb = (case cb of None \<Rightarrow> Falsy | Some f \<Rightarrow> Function f)"

fun invoke :: "bucket \<Rightarrow> call \<Rightarrow> callback option \<Rightarrow> jsvalue task" where
  "invoke b (Get i) cb = get b i cb"
| "invoke b (Update3 i object) cb = update b i object (as_function cb) Falsy None"
| "invoke b (Update4 i object info) cb = update b i object (optional info) (as_function cb) None"
| "invoke b (Update5 i object info opts) cb = update b i object (optional info) (optional opts) cb"
| "invoke b (Add uuid object) cb = add b uuid object cb"
| "invoke b (Remove i) cb = remove b i cb"
| "invoke b (Find query) cb = find b query cb"
| "invoke b (GetVersion i) cb = getVersion b i cb"
| "invoke b HasLocalChanges cb = hasLocalChanges b cb"
| "invoke b (GetRevisions i) cb = getRevisions b i cb"
| "invoke b (Touch i) cb = touch b i cb"

text \<open>
  An operation is a pass-through to the channel when all it does is one call of the
  channel, and it answers what the channel answers.
\<close>

fun channel_call :: "effect \<Rightarrow> bool" where
  "channel_call (ChannelUpdate obj flag) \<longleftrightarrow> True"
| "channel_call (ChannelGetVersion i) \<longleftrightarrow> True"
| "channel_call (ChannelGetRevisions i) \<longleftrightarrow> True"
| "channel_call ChannelHasLocalChanges \<longleftrightarrow> True"
| "channel_call ChannelReload \<longleftrightarrow> True"
| "channel_call (ChannelRemove i) \<longleftrightarrow> True"
| "channel_call _ \<longleftrightarrow> False"

definition pass_through :: "effect list \<Rightarrow> bool" where
  "pass_through effects \<longleftrightarrow> (case effects of [e] \<Rightarrow> channel_call e | _ \<Rightarrow> False)"

text \<open>
  What the callback of the old API adds to the effects of an operation whose promise
  settles with the given outcome.
\<close>

definition after_callback :: "callback option \<Rightarrow> error + jsvalue \<Rightarrow> effect list" where
  "after_callback cb outcome =
     (case cb of
        None \<Rightarrow> []
      | Some f \<Rightarrow>
          (case outcome of
             Inl e \<Rightarrow> [Called f (Some e) None]
           | Inr result \<Rightarrow> [Called f None (Some result)]))"

text \<open>
  An operation reports an error when, called without a callback, it does the given calls
  and its promise is rejected with the error, and, called with a callback, it does the
  same calls, then calls the callback with the error as its first and only argument, and
  its promise is fulfilled with the error value.
\<close>

definition reports_error ::
    "(callback option \<Rightarrow> jsvalue task) \<Rightarrow> effect list \<Rightarrow> error \<Rightarrow> callback \<Rightarrow> bool" where
  "reports_error operation calls e f \<longleftrightarrow>
     operation None = (calls, Rejected e)
     \<and> operation (Some f) = (calls @ [Called f (Some e) None], Fulfilled (ErrorValue e))"

text \<open>
  Collaborators to run the bucket on: a store that keeps its objects in a list and hands
  back what it is given, a store whose every call fails, a store that can be read and
  whose writes fail, a channel that answers \<open>update\<close> with the object it is handed and
  \<open>getVersion\<close> with \<open>0\<close> as the mock channel of the tests does, a channel whose every
  call fails, a resolver with a fixed answer, and a note.
\<close>

definition memory_store :: "(string \<times> Value) list \<Rightarrow> store" where
  "memory_store objects =
     \<lparr> store_get = (\<lambda>i. Inr (map_option
                        (\<lambda>d. \<lparr> bo_id = i, bo_data = d, bo_isIndexing = False \<rparr>) (map_of objects i))),
       store_update = (\<lambda>i d ix. Inr \<lparr> bo_id = i, bo_data = d, bo_isIndexing = ix \<rparr>),
       store_remove = (\<lambda>i. Inr Undefined),
       store_find = (\<lambda>query. Inr (Json (VList (map snd objects)))) \<rparr>"

definition failing_store :: "error \<Rightarrow> store" where
  "failing_store e =
     \<lparr> store_get = (\<lambda>i. Inl e),
       store_update = (\<lambda>i d ix. Inl e),
       store_remove = (\<lambda>i. Inl e),
       store_find = (\<lambda>query. Inl e) \<rparr>"

definition echo_channel :: channel where
  "echo_channel =
     \<lparr> channel_update = (\<lambda>obj flag. Inr obj),
       channel_getVersion = (\<lambda>i. Inr (Json (VNumber 0))),
       channel_getRevisions = (\<lambda>i. Inr (Json (VList []))),
       channel_hasLocalChanges = Inr (Json (VBool False)) \<rparr>"

definition read_only_store :: "(string \<times> Value) list \<Rightarrow> error \<Rightarrow> store" where
  "read_only_store objects e =
     (memory_store objects)\<lparr> store_update := (\<lambda>i d ix. Inl e), store_remove := (\<lambda>i. Inl e) \<rparr>"

definition failing_channel :: "error \<Rightarrow> channel" where
  "failing_channel e =
     \<lparr> channel_update = (\<lambda>obj flag. Inl e),
       channel_getVersion = (\<lambda>i. Inl e),
       channel_getRevisions = (\<lambda>i. Inl e),
       channel_hasLocalChanges = Inl e \<rparr>"

definition offline_bucket :: "store \<Rightarrow> error \<Rightarrow> bucket" where
  "offline_bucket st e =
     \<lparr> bucket_store = st, bucket_channel = failing_channel e, isIndexing = False,
       changeResolver = None \<rparr>"

definition example_bucket :: "store \<Rightarrow> bucket" where
  "example_bucket st =
     \<lparr> bucket_store = st, bucket_channel = echo_channel, isIndexing = False, changeResolver = None \<rparr>"

definition answering :: "jsvalue \<Rightarrow> string \<Rightarrow> Value \<Rightarrow> Value \<Rightarrow> ObjectOperationSet \<Rightarrow> error + jsvalue" where
  "answering v i object base patch = Inr v"

definition hola :: Value where
  "hola = VMapping [(''content'', VString ''Hola mundo!''), (''deleted'', VBool False)]"


section \<open>Properties of \<open>parse_message\<close>\<close>

lemma indexOf_absent: "c \<notin> set s \<Longrightarrow> indexOf s c = - 1"
  by (induction s) (auto simp: Let_def)

lemma indexOf_present:
  "c \<in> set s \<Longrightarrow> indexOf s c = int (length (takeWhile (\<lambda>x. x \<noteq> c) s))"
proof (induction s)
  case Nil
  then show ?case by simp
next
  case (Cons x xs)
  show ?case
  proof (cases "x = c")
    case True
    then show ?thesis by simp
  next
    case False
    with Cons.prems have "c \<in> set xs" by simp
    with Cons.IH False show ?thesis by (simp add: Let_def)
  qed
qed

lemma length_takeWhile_less:
  "c \<in> set s \<Longrightarrow> length (takeWhile (\<lambda>x. x \<noteq> c) s) < length s"
  by (induction s) auto

lemma take_length_takeWhile:
  "take (length (takeWhile P s)) s = takeWhile P s"
  by (induction s) auto

lemma drop_Suc_length_takeWhile:
  "c \<in> set s \<Longrightarrow>
   drop (Suc (length (takeWhile (\<lambda>x. x \<noteq> c) s))) s = tl (dropWhile (\<lambda>x. x \<noteq> c) s)"
  by (induction s) auto

lemma takeWhile_colon_tl_dropWhile:
  "c \<in> set s \<Longrightarrow> takeWhile (\<lambda>x. x \<noteq> c) s @ c # tl (dropWhile (\<lambda>x. x \<noteq> c) s) = s"
  by (induction s) auto

text \<open>
  Claim C9. For a frame that contains a colon, \<open>command\<close> is the text before the first
  colon, \<open>data\<close> is the text after that first colon, and \<open>command\<close>, a colon and
  \<open>data\<close> put together give the frame back.
\<close>

theorem parse_message_splits_at_first_colon:
  assumes "CHR '':'' \<in> set frame"
  shows "command (parse_message frame) = takeWhile (\<lambda>x. x \<noteq> CHR '':'') frame
       \<and> data (parse_message frame) = tl (dropWhile (\<lambda>x. x \<noteq> CHR '':'') frame)
       \<and> command (parse_message frame) @ '':'' @ data (parse_message frame) = frame"
proof -
  let ?n = "length (takeWhile (\<lambda>x. x \<noteq> CHR '':'') frame)"
  have marker: "indexOf frame (CHR '':'') = int ?n"
    using assms by (rule indexOf_present)
  have less: "?n < length frame"
    using assms by (rule length_takeWhile_less)
  have c: "command (parse_message frame) = takeWhile (\<lambda>x. x \<noteq> CHR '':'') frame"
    using less
    by (simp add: parse_message_def marker slice_def relative_index_def Let_def
        take_length_takeWhile min_def)
  have "nat (int ?n + 1) = Suc ?n"
    by simp
  then have "relative_index (length frame) (int ?n + 1) = Suc ?n"
    using less unfolding relative_index_def by auto
  then have d: "data (parse_message frame) = tl (dropWhile (\<lambda>x. x \<noteq> CHR '':'') frame)"
    using assms
    by (simp add: parse_message_def marker slice_from_def Let_def drop_Suc_length_takeWhile)
  from c d takeWhile_colon_tl_dropWhile [OF assms] show ?thesis by simp
qed

theorem parse_message_splits_at_first_colon_witness:
  "CHR '':'' \<in> set ''0:auth:user''
   \<and> command (parse_message ''0:auth:user'') = ''0''
   \<and> data (parse_message ''0:auth:user'') = ''auth:user''"
  using parse_message_splits_at_first_colon [of "''0:auth:user''"] by simp


section \<open>Properties of the diff algebra\<close>

lemma map_of_set_key: "map_of (set_key k v m) = (map_of m)(k \<mapsto> v)"
  by (induction m) (auto simp: fun_eq_iff)

lemma map_of_remove_key: "map_of (remove_key k m) = (map_of m)(k := None)"
  by (induction m) (auto simp: remove_key_def fun_eq_iff)

lemma map_of_put: "map_of (put k r m) = (map_of m)(k := r)"
  by (cases r) (simp_all add: put_def map_of_set_key map_of_remove_key)

lemma set_set_key: "fst ` set (set_key k v m) = insert k (fst ` set m)"
proof -
  have "dom (map_of (set_key k v m)) = insert k (dom (map_of m))"
    by (simp add: map_of_set_key)
  then show ?thesis by (simp add: dom_map_of_conv_image_fst)
qed

lemma sorted_keys_set_key: "sorted_keys m \<Longrightarrow> sorted_keys (set_key k v m)"
proof (induction m)
  case Nil
  then show ?case by (simp add: sorted_keys_def)
next
  case (Cons p m)
  obtain k' v' where p: "p = (k', v')" by (cases p)
  from Cons.prems have tl: "sorted_keys m" and hd: "\<forall>x \<in> fst ` set m. k' < x"
    by (auto simp: sorted_keys_def p)
  show ?case
  proof (cases "k = k'")
    case True
    with Cons.prems show ?thesis by (simp add: sorted_keys_def p)
  next
    case False
    show ?thesis
    proof (cases "k < k'")
      case True
      with Cons.prems show ?thesis by (auto simp: sorted_keys_def p)
    next
      case ge: False
      with False have "k' < k" by simp
      with hd have "\<forall>x \<in> fst ` set (set_key k v m). k' < x"
        by (simp add: set_set_key)
      with Cons.IH [OF tl] False ge show ?thesis
        by (simp add: sorted_keys_def p)
    qed
  qed
qed

lemma sorted_keys_remove_key: "sorted_keys m \<Longrightarrow> sorted_keys (remove_key k m)"
  unfolding sorted_keys_def remove_key_def
  by (induction m) auto

lemma sorted_keys_put: "sorted_keys m \<Longrightarrow> sorted_keys (put k r m)"
  by (cases r) (simp_all add: put_def sorted_keys_set_key sorted_keys_remove_key)

lemma sorted_keys_distinct: "sorted_keys m \<Longrightarrow> distinct (map fst m)"
  unfolding sorted_keys_def by (simp add: strict_sorted_iff)

lemma sorted_keys_map_of_eq:
  "sorted_keys m \<Longrightarrow> sorted_keys m' \<Longrightarrow> map_of m = map_of m' \<Longrightarrow> m = m'"
proof (induction m arbitrary: m')
  case Nil
  from Nil.prems(3) [symmetric] have "map_of m' = Map.empty" by simp
  then show ?case by (simp only: map_of_eq_empty_iff)
next
  case (Cons p m)
  obtain k v where p: "p = (k, v)" by (cases p)
  from Cons.prems(3) [symmetric] have "map_of m' k = map_of (p # m) k" by (rule fun_cong)
  then have "map_of m' k = Some v" by (simp add: p)
  then obtain q ms where m': "m' = q # ms" by (cases m') auto
  obtain k' v' where q: "q = (k', v')" by (cases q)
  from Cons.prems(1) have tl: "sorted_keys m" and hd: "\<forall>x \<in> fst ` set m. k < x"
    by (auto simp: sorted_keys_def p)
  from Cons.prems(2) have tl': "sorted_keys ms" and hd': "\<forall>x \<in> fst ` set ms. k' < x"
    by (auto simp: sorted_keys_def m' q)
  have kk: "k = k'"
  proof (rule ccontr)
    assume ne: "k \<noteq> k'"
    from Cons.prems(3) have "map_of ms k = Some v" "map_of m k' = Some v'"
      using ne by (auto simp: p m' q fun_eq_iff split: if_splits)
    then have "k \<in> fst ` set ms" "k' \<in> fst ` set m"
      by (auto dest!: map_of_SomeD intro: rev_image_eqI)
    with hd hd' have "k' < k" "k < k'" by auto
    then show False by simp
  qed
  from Cons.prems(3) have vv: "v = v'" by (auto simp: p m' q kk fun_eq_iff split: if_splits)
  have "map_of m = map_of ms"
  proof
    fix x
    show "map_of m x = map_of ms x"
    proof (cases "x = k")
      case True
      from hd have "k \<notin> fst ` set m" by auto
      moreover from hd' kk have "k \<notin> fst ` set ms" by auto
      ultimately have "map_of m k = None" "map_of ms k = None"
        by (simp_all add: map_of_eq_None_iff)
      with True show ?thesis by simp
    next
      case False
      with Cons.prems(3) show ?thesis
        by (auto simp: p m' q kk fun_eq_iff split: if_splits)
    qed
  qed
  with Cons.IH [OF tl tl'] have "m = ms" by simp
  with kk vv show ?case by (simp add: p m' q)
qed

lemma apply_object_ops_outcomes:
  assumes "distinct (map fst ops)"
    and "\<forall>p \<in> set ops. apply_diff D (snd p) (map_of m (fst p)) = Inr (t (fst p))"
  shows "\<exists>m'. apply_object_ops D ops m = Inr m'
           \<and> map_of m' = (\<lambda>k. if k \<in> fst ` set ops then t k else map_of m k)
           \<and> (sorted_keys m \<longrightarrow> sorted_keys m')"
  using assms
proof (induction ops arbitrary: m)
  case Nil
  then show ?case by simp
next
  case (Cons p ops)
  obtain k op where p: "p = (k, op)" by (cases p)
  from Cons.prems have k: "k \<notin> fst ` set ops" and d: "distinct (map fst ops)"
    by (auto simp: p)
  from Cons.prems(2) have here: "apply_diff D op (map_of m k) = Inr (t k)"
    by (simp add: p)
  have "\<forall>q \<in> set ops. apply_diff D (snd q) (map_of (put k (t k) m) (fst q)) = Inr (t (fst q))"
  proof
    fix q assume q: "q \<in> set ops"
    with k have "fst q \<noteq> k" by auto
    with Cons.prems(2) q show "apply_diff D (snd q) (map_of (put k (t k) m) (fst q)) = Inr (t (fst q))"
      by (simp add: map_of_put)
  qed
  from Cons.IH [OF d this] obtain m' where
    m': "apply_object_ops D ops (put k (t k) m) = Inr m'"
    and lk: "map_of m' = (\<lambda>x. if x \<in> fst ` set ops then t x else map_of (put k (t k) m) x)"
    and so: "sorted_keys (put k (t k) m) \<longrightarrow> sorted_keys m'"
    by blast
  have "apply_object_ops D (p # ops) m = Inr m'"
    by (simp add: p here m')
  moreover have "map_of m' = (\<lambda>x. if x \<in> fst ` set (p # ops) then t x else map_of m x)"
    by (auto simp: lk p map_of_put fun_eq_iff)
  moreover have "sorted_keys m \<longrightarrow> sorted_keys m'"
    using so by (simp add: sorted_keys_put)
  ultimately show ?case by blast
qed

lemma changes_key_in: "(k, op) \<in> set (changes D a b) \<Longrightarrow> k \<in> fst ` set a"
  by (induction a) (auto split: option.splits if_splits)

lemma changes_keys: "fst ` set (changes D a b) \<subseteq> fst ` set a"
  using changes_key_in by fastforce

lemma changes_distinct: "distinct (map fst a) \<Longrightarrow> distinct (map fst (changes D a b))"
proof (induction a)
  case Nil
  then show ?case by simp
next
  case (Cons p a)
  obtain k x where p: "p = (k, x)" by (cases p)
  from Cons.prems have "k \<notin> fst ` set a" by (simp add: p)
  with changes_keys [of D a b] have "k \<notin> fst ` set (changes D a b)" by blast
  with Cons show ?case by (auto simp: p split: option.splits)
qed

lemma changes_key_iff:
  "distinct (map fst a) \<Longrightarrow>
   k \<in> fst ` set (changes D a b) \<longleftrightarrow> (\<exists>x. map_of a k = Some x \<and> map_of b k \<noteq> Some x)"
proof (induction a)
  case Nil
  then show ?case by simp
next
  case (Cons p a)
  obtain k' x where p: "p = (k', x)" by (cases p)
  from Cons.prems have nk: "k' \<notin> fst ` set a" and d: "distinct (map fst a)"
    by (simp_all add: p)
  from nk changes_keys [of D a b] have nc: "k' \<notin> fst ` set (changes D a b)" by blast
  from nk have none: "map_of a k' = None" by (simp add: map_of_eq_None_iff)
  show ?case
  proof (cases "k = k'")
    case True
    with nc show ?thesis by (auto simp: p split: option.splits)
  next
    case False
    with Cons.IH [OF d] show ?thesis by (auto simp: p split: option.splits)
  qed
qed


lemma additions_set:
  "set (additions a b) = {(k, ADD v) | k v. (k, v) \<in> set b \<and> map_of a k = None}"
  by (auto simp: additions_def)

lemma additions_Cons:
  "additions a ((k, v) # b) = (if map_of a k = None then [(k, ADD v)] else []) @ additions a b"
  by (simp add: additions_def)

lemma additions_key_in: "(k, op) \<in> set (additions a b) \<Longrightarrow> k \<in> fst ` set b"
  by (auto simp: additions_set intro: rev_image_eqI)

lemma additions_distinct: "distinct (map fst b) \<Longrightarrow> distinct (map fst (additions a b))"
proof (induction b)
  case Nil
  then show ?case by (simp add: additions_def)
next
  case (Cons p b)
  obtain k v where p: "p = (k, v)" by (cases p)
  from Cons.prems have "k \<notin> fst ` set b" by (simp add: p)
  with additions_key_in [of k _ a b] have "k \<notin> fst ` set (additions a b)" by auto
  with Cons show ?case by (cases "map_of a k") (simp_all add: p additions_Cons)
qed

lemma additions_key_iff:
  "k \<in> fst ` set (additions a b) \<longleftrightarrow> map_of a k = None \<and> map_of b k \<noteq> None"
  by (auto simp: additions_set map_of_eq_None_iff image_iff) force+

lemma object_diff_eq: "object_diff D a b = sort_key fst (changes D a b @ additions a b)"
  by simp

lemma distinct_map_fst_sort_key:
  "distinct (map fst (sort_key fst xs)) \<longleftrightarrow> distinct (map fst xs)"
  by (simp add: distinct_map)

lemma object_diff_distinct:
  assumes "distinct (map fst a)" "distinct (map fst b)"
  shows "distinct (map fst (object_diff D a b))"
proof -
  have "fst ` set (changes D a b) \<inter> fst ` set (additions a b) = {}"
  proof -
    { fix k assume "k \<in> fst ` set (changes D a b)" "k \<in> fst ` set (additions a b)"
      with changes_keys [of D a b] have "k \<in> fst ` set a" "map_of a k = None"
        by (auto simp: additions_key_iff)
      then have False by (simp add: map_of_eq_None_iff) }
    then show ?thesis by blast
  qed
  with assms show ?thesis
    by (simp add: distinct_map_fst_sort_key changes_distinct additions_distinct)
qed

lemma object_diff_key_iff:
  assumes "distinct (map fst a)"
  shows "k \<in> fst ` set (object_diff D a b) \<longleftrightarrow> map_of a k \<noteq> map_of b k"
proof -
  have "k \<in> fst ` set (object_diff D a b)
      \<longleftrightarrow> k \<in> fst ` set (changes D a b) \<or> k \<in> fst ` set (additions a b)"
    by (simp add: image_Un)
  then show ?thesis
    using changes_key_iff [OF assms, of k D b] additions_key_iff [of k a b]
    by (cases "map_of a k"; cases "map_of b k") auto
qed

lemma compact_Nil [simp]: "compact [] = []"
  by (simp add: compact_def List.map_filter_simps)

lemma compact_Some [simp]: "compact (Some x # s) = x # compact s"
  by (simp add: compact_def List.map_filter_simps)

lemma compact_None [simp]: "compact (None # s) = compact s"
  by (simp add: compact_def List.map_filter_simps)

lemma compact_append [simp]: "compact (s @ s') = compact s @ compact s'"
  by (induction s) (auto simp: compact_def List.map_filter_simps split: option.splits)

lemma compact_map_Some [simp]: "compact (map Some ys) = ys"
  by (induction ys) simp_all

lemma compact_replicate_None [simp]: "compact (replicate n None) = []"
  by (induction n) simp_all

lemma list_extent_bound: "p \<in> set ops \<Longrightarrow> fst p < list_extent ops"
  by (induction ops) auto

lemma slots_bound: "p \<in> set ops \<Longrightarrow> fst p < length (slots ops l)"
  using list_extent_bound [of p ops] by (simp add: slots_def)

lemma apply_list_ops_adds:
  "length pre = i \<Longrightarrow> length ys \<le> n \<Longrightarrow>
   apply_list_ops D (zip [i ..< i + length ys] (map ADD ys)) (pre @ replicate n None)
     = Inr (pre @ map Some ys @ replicate (n - length ys) None)"
proof (induction ys arbitrary: i pre n)
  case Nil
  then show ?case by simp
next
  case (Cons y ys)
  from Cons.prems obtain n' where n: "n = Suc n'" by (cases n) auto
  have z: "zip [i ..< i + length (y # ys)] (map ADD (y # ys))
         = (i, ADD y) # zip [Suc i ..< Suc i + length ys] (map ADD ys)"
    by (simp add: upt_conv_Cons del: upt_Suc)
  have s: "pre @ replicate n None = (pre @ [None]) @ replicate n' None"
    by (simp add: n)
  from Cons.prems have "length (pre @ [None]) = Suc i" "length ys \<le> n'"
    by (simp_all add: n)
  from Cons.IH [OF this]
  have rest: "apply_list_ops D (zip [Suc i ..< Suc (i + length ys)] (map ADD ys)) (pre @ replicate n None)
            = Inr (pre @ None # map Some ys @ replicate (n' - length ys) None)"
    by (simp add: s)
  have "n - length (y # ys) = n' - length ys" by (simp add: n)
  with Cons.prems(1) show ?case
    unfolding z by (simp add: rest nth_append list_update_append del: upt_Suc)
qed

lemma apply_list_ops_step:
  assumes "apply_list_ops D ops (pre @ Some x # T) = Inr (pre @ Some x # S)"
    and "apply_diff D op (Some x) = Inr r"
  shows "apply_list_ops D ((length pre, op) # ops) (pre @ Some x # T) = Inr (pre @ r # S)"
  using assms by (simp add: nth_append list_update_append)

lemma round_trip_mutual:
  assumes "dmp_round_trip D"
  shows "canonical x \<Longrightarrow> canonical y \<Longrightarrow> x \<noteq> y
           \<Longrightarrow> apply_diff D (diff_value D x y) (Some x) = Inr (Some y)"
    and "canonical (VMapping a) \<Longrightarrow> canonical (VMapping b)
           \<Longrightarrow> apply_object_ops D (object_diff D a b) a = Inr b"
    and "\<forall>p \<in> set a. canonical (snd p) \<Longrightarrow> canonical (VMapping b)
           \<Longrightarrow> \<forall>p \<in> set (changes D a b).
                 \<exists>x. (fst p, x) \<in> set a \<and> apply_diff D (snd p) (Some x) = Inr (map_of b (fst p))"
    and "\<forall>v \<in> set xs. canonical v \<Longrightarrow> \<forall>v \<in> set ys. canonical v
           \<Longrightarrow> \<forall>pre n. length pre = i
                 \<longrightarrow> (\<forall>p \<in> set (list_diff D i xs ys). fst p < i + length xs + n)
                 \<longrightarrow> (\<exists>S. apply_list_ops D (list_diff D i xs ys)
                              (pre @ map Some xs @ replicate n None) = Inr (pre @ S)
                          \<and> compact S = ys)"
  using assms
proof (induction D x y and D a b and D a b and D i xs ys
    rule: diff_value_object_diff_changes_list_diff.induct)
  case (1 D a y)
  show ?case
  proof (cases y)
    case (VMapping b)
    show ?thesis
    proof (cases "object_diff D a b = []")
      case True
      then show ?thesis by (simp add: VMapping del: object_diff.simps)
    next
      case False
      from "1.IH" [OF VMapping] "1.prems" have "apply_object_ops D (object_diff D a b) a = Inr b"
        by (simp add: VMapping)
      with False show ?thesis by (simp add: VMapping del: object_diff.simps)
    qed
  qed simp_all
next
  case (2 D xs y)
  show ?case
  proof (cases y)
    case (VList ys)
    let ?sub = "list_diff D 0 xs ys"
    show ?thesis
    proof (cases "?sub = []")
      case True
      then show ?thesis by (simp add: VList)
    next
      case False
      have bound: "\<forall>p \<in> set ?sub. fst p < 0 + length xs + (list_extent ?sub - length xs)"
        using list_extent_bound [of _ ?sub] by fastforce
      from "2.prems" have "\<forall>v \<in> set xs. canonical v" "\<forall>v \<in> set ys. canonical v"
        by (simp_all add: VList)
      from "2.IH" [OF VList this "2.prems"(4)] bound
      obtain S where "apply_list_ops D ?sub ([] @ map Some xs @ replicate (list_extent ?sub - length xs) None) = Inr ([] @ S)"
        and "compact S = ys"
        by blast
      with False show ?thesis by (simp add: VList slots_def)
    qed
  qed simp_all
next
  case (3 D s y)
  then show ?case
    by (cases y) (auto simp: dmp_round_trip_def)
next
  case (4 D m y)
  then show ?case by (cases y) auto
next
  case (5 D p y)
  then show ?case by simp
next
  case (6 D y)
  then show ?case by simp
next
  case (7 D a b)
  from "7.prems" have sa: "sorted_keys a" and sb: "sorted_keys b"
    and ca: "\<forall>p \<in> set a. canonical (snd p)"
    by simp_all
  from sa sb have da: "distinct (map fst a)" and db: "distinct (map fst b)"
    by (simp_all add: sorted_keys_distinct)
  from "7.IH" [OF ca "7.prems"(2) "7.prems"(3)]
  have ch: "\<forall>p \<in> set (changes D a b).
        \<exists>x. (fst p, x) \<in> set a \<and> apply_diff D (snd p) (Some x) = Inr (map_of b (fst p))" .
  have each: "\<forall>p \<in> set (object_diff D a b).
        apply_diff D (snd p) (map_of a (fst p)) = Inr (map_of b (fst p))"
  proof
    fix p assume "p \<in> set (object_diff D a b)"
    then consider "p \<in> set (changes D a b)" | "p \<in> set (additions a b)"
      by auto
    then show "apply_diff D (snd p) (map_of a (fst p)) = Inr (map_of b (fst p))"
    proof cases
      case 1
      with ch obtain x where "(fst p, x) \<in> set a"
        and "apply_diff D (snd p) (Some x) = Inr (map_of b (fst p))" by blast
      with da show ?thesis by simp
    next
      case 2
      then obtain k v where "p = (k, ADD v)" "(k, v) \<in> set b" "map_of a k = None"
        by (auto simp: additions_set)
      with db show ?thesis by simp
    qed
  qed
  from apply_object_ops_outcomes [OF object_diff_distinct [OF da db] each]
  obtain m' where m': "apply_object_ops D (object_diff D a b) a = Inr m'"
    and lk: "map_of m' = (\<lambda>k. if k \<in> fst ` set (object_diff D a b) then map_of b k else map_of a k)"
    and so: "sorted_keys a \<longrightarrow> sorted_keys m'"
    by blast
  have "map_of m' = map_of b"
    unfolding lk using object_diff_key_iff [OF da, of _ D b] by (auto simp: fun_eq_iff)
  with so sa sb have "m' = b" by (simp add: sorted_keys_map_of_eq)
  with m' show ?case by simp
next
  case (8 D b)
  then show ?case by simp
next
  case (9 D k x a b)
  from "9.prems" have cx: "canonical x" and ca: "\<forall>p \<in> set a. canonical (snd p)"
    by simp_all
  show ?case
  proof (cases "map_of b k")
    case None
    from "9.IH"(1) [OF None ca "9.prems"(2) "9.prems"(3)] None show ?thesis
      by auto
  next
    case (Some y)
    show ?thesis
    proof (cases "x = y")
      case True
      from "9.IH"(2) [OF Some True ca "9.prems"(2) "9.prems"(3)] Some True show ?thesis
        by auto
    next
      case False
      from Some have "(k, y) \<in> set b" by (rule map_of_SomeD)
      with "9.prems"(2) have cy: "canonical y" by auto
      from "9.IH"(3) [OF Some False cx cy False "9.prems"(3)]
      have here: "apply_diff D (diff_value D x y) (Some x) = Inr (Some y)" .
      from "9.IH"(4) [OF Some False ca "9.prems"(2) "9.prems"(3)] here Some False show ?thesis
        by auto
    qed
  qed
next
  case (10 D i ys)
  show ?case
  proof (intro allI impI)
    fix pre :: "Value option list" and n
    assume len: "length pre = i"
      and bound: "\<forall>p \<in> set (list_diff D i [] ys). fst p < i + length [] + n"
    have "length ys \<le> n"
    proof (cases ys rule: rev_cases)
      case Nil
      then show ?thesis by simp
    next
      case (snoc zs z)
      then have "(i + length zs, ADD z) \<in> set (list_diff D i [] ys)"
        by (auto simp: in_set_zip nth_append intro!: exI [of _ "length zs"])
      with bound snoc show ?thesis by auto
    qed
    from apply_list_ops_adds [OF len this, of D]
    show "\<exists>S. apply_list_ops D (list_diff D i [] ys) (pre @ map Some [] @ replicate n None)
               = Inr (pre @ S) \<and> compact S = ys"
      by simp
  qed
next
  case (11 D i x xs)
  show ?case
  proof (intro allI impI)
    fix pre :: "Value option list" and n
    assume len: "length pre = i"
      and bound: "\<forall>p \<in> set (list_diff D i (x # xs) []). fst p < i + length (x # xs) + n"
    from "11.prems" have cxs: "\<forall>v \<in> set xs. canonical v" by simp
    from len have len': "length (pre @ [Some x]) = Suc i" by simp
    from bound have "\<forall>p \<in> set (list_diff D (Suc i) xs []). fst p < Suc i + length xs + n"
      by simp
    with "11.IH" [OF cxs "11.prems"(2) "11.prems"(3)] len'
    obtain S where "apply_list_ops D (list_diff D (Suc i) xs [])
          ((pre @ [Some x]) @ map Some xs @ replicate n None) = Inr ((pre @ [Some x]) @ S)"
      and S: "compact S = []"
      by blast
    then have "apply_list_ops D (list_diff D (Suc i) xs [])
          (pre @ Some x # map Some xs @ replicate n None) = Inr (pre @ Some x # S)"
      by simp
    from apply_list_ops_step [OF this, of REMOVE None]
    have "apply_list_ops D (list_diff D i (x # xs) []) (pre @ map Some (x # xs) @ replicate n None)
            = Inr (pre @ None # S)"
      by (simp add: len)
    with S show "\<exists>S. apply_list_ops D (list_diff D i (x # xs) [])
               (pre @ map Some (x # xs) @ replicate n None) = Inr (pre @ S) \<and> compact S = []"
      by auto
  qed
next
  case (12 D i x xs y ys)
  from "12.prems" have cx: "canonical x" and cxs: "\<forall>v \<in> set xs. canonical v"
    and cy: "canonical y" and cys: "\<forall>v \<in> set ys. canonical v"
    by simp_all
  show ?case
  proof (intro allI impI)
    fix pre :: "Value option list" and n
    assume len: "length pre = i"
      and bound: "\<forall>p \<in> set (list_diff D i (x # xs) (y # ys)). fst p < i + length (x # xs) + n"
    from len have len': "length (pre @ [Some x]) = Suc i" by simp
    let ?s = "pre @ map Some (x # xs) @ replicate n None"
    have s: "?s = (pre @ [Some x]) @ map Some xs @ replicate n None" by simp
    show "\<exists>S. apply_list_ops D (list_diff D i (x # xs) (y # ys)) ?s = Inr (pre @ S)
             \<and> compact S = y # ys"
    proof (cases "x = y")
      case True
      with bound have "\<forall>p \<in> set (list_diff D (Suc i) xs ys). fst p < Suc i + length xs + n"
        by simp
      with "12.IH"(1) [OF True cxs cys "12.prems"(3)] len'
      obtain S where "apply_list_ops D (list_diff D (Suc i) xs ys)
            ((pre @ [Some x]) @ map Some xs @ replicate n None) = Inr ((pre @ [Some x]) @ S)"
        and "compact S = ys"
        by blast
      with True show ?thesis by (intro exI [of _ "Some x # S"]) simp
    next
      case False
      show ?thesis
      proof (cases "lcs_length xs ys < lcs_length xs (y # ys)")
        case True
        with False bound
        have "\<forall>p \<in> set (list_diff D (Suc i) xs (y # ys)). fst p < Suc i + length xs + n"
          by simp
        with "12.IH"(2) [OF False True cxs "12.prems"(2) "12.prems"(3)] len'
        obtain S where "apply_list_ops D (list_diff D (Suc i) xs (y # ys))
              ((pre @ [Some x]) @ map Some xs @ replicate n None) = Inr ((pre @ [Some x]) @ S)"
          and S: "compact S = y # ys"
          by blast
        then have "apply_list_ops D (list_diff D (Suc i) xs (y # ys))
              (pre @ Some x # map Some xs @ replicate n None) = Inr (pre @ Some x # S)"
          by simp
        from apply_list_ops_step [OF this, of REMOVE None]
        have "apply_list_ops D (list_diff D i (x # xs) (y # ys)) ?s = Inr (pre @ None # S)"
          using False True by (simp add: len)
        with S show ?thesis by (intro exI [of _ "None # S"]) simp
      next
        case nl: False
        with False bound
        have "\<forall>p \<in> set (list_diff D (Suc i) xs ys). fst p < Suc i + length xs + n"
          by simp
        with "12.IH"(4) [OF False nl cxs cys "12.prems"(3)] len'
        obtain S where "apply_list_ops D (list_diff D (Suc i) xs ys)
              ((pre @ [Some x]) @ map Some xs @ replicate n None) = Inr ((pre @ [Some x]) @ S)"
          and S: "compact S = ys"
          by blast
        then have rest: "apply_list_ops D (list_diff D (Suc i) xs ys)
              (pre @ Some x # map Some xs @ replicate n None) = Inr (pre @ Some x # S)"
          by simp
        from "12.IH"(3) [OF False nl cx cy False "12.prems"(3)]
        have "apply_diff D (diff_value D x y) (Some x) = Inr (Some y)" .
        from apply_list_ops_step [OF rest this]
        have "apply_list_ops D (list_diff D i (x # xs) (y # ys)) ?s = Inr (pre @ Some y # S)"
          using False nl by (simp add: len)
        with S show ?thesis by (intro exI [of _ "Some y # S"]) simp
      qed
    qed
  qed
qed

lemma diff_known_tags:
  shows "\<not> unknown_tag (diff_value D x y)"
    and "\<forall>p \<in> set (object_diff D a b). \<not> unknown_tag (snd p)"
    and "\<forall>p \<in> set (changes D a b). \<not> unknown_tag (snd p)"
    and "\<forall>p \<in> set (list_diff D i xs ys). \<not> unknown_tag (snd p)"
proof (induction D x y and D a b and D a b and D i xs ys
    rule: diff_value_object_diff_changes_list_diff.induct)
  case (1 D a y)
  then show ?case by (cases y) (simp_all add: Let_def del: object_diff.simps)
next
  case (2 D xs y)
  then show ?case by (cases y) (simp_all add: Let_def)
next
  case (3 D s y)
  then show ?case by (cases y) simp_all
next
  case (4 D m y)
  then show ?case by (cases y) simp_all
next
  case (7 D a b)
  then show ?case by (auto simp: additions_set)
next
  case (9 D k x a b)
  then show ?case by (cases "map_of b k") auto
next
  case (10 D i ys)
  then show ?case by (auto simp: in_set_zip)
qed simp_all

text \<open>
  Claim C1 (round trip). For a text differ that meets its contract and for mappings \<open>a\<close>
  and \<open>b\<close> in canonical form, applying \<open>object_diff a b\<close> to \<open>a\<close> succeeds and gives
  \<open>b\<close>.
\<close>

theorem object_diff_round_trip:
  assumes "dmp_round_trip D" and "canonical (VMapping a)" and "canonical (VMapping b)"
  shows "apply_object_diff D (object_diff D a b) a = Inr b"
proof -
  have "\<not> malformed (object_diff D a b)"
    using diff_known_tags(2) [of D a b] by (simp add: malformed_def del: object_diff.simps)
  with round_trip_mutual(2) [OF assms] show ?thesis
    by (simp add: apply_object_diff_def del: object_diff.simps)
qed

theorem object_diff_round_trip_witness:
  "dmp_round_trip whole_text
   \<and> canonical (VMapping [(''a'', VNumber 1), (''b'', VList [VNull, VBool True, VString ''x'']),
        (''c'', VNull)])
   \<and> canonical (VMapping [(''a'', VNumber 3), (''b'', VList [VBool True, VString ''xy'', VNull]),
        (''d'', VNull)])
   \<and> object_diff whole_text
         [(''a'', VNumber 1), (''b'', VList [VNull, VBool True, VString ''x'']), (''c'', VNull)]
         [(''a'', VNumber 3), (''b'', VList [VBool True, VString ''xy'', VNull]), (''d'', VNull)]
       = [(''a'', INCREMENT 2),
          (''b'', LIST [(0, REMOVE), (2, DMP ''xy''), (3, ADD VNull)]),
          (''c'', REMOVE), (''d'', ADD VNull)]
   \<and> apply_object_diff whole_text
         (object_diff whole_text
           [(''a'', VNumber 1), (''b'', VList [VNull, VBool True, VString ''x'']), (''c'', VNull)]
           [(''a'', VNumber 3), (''b'', VList [VBool True, VString ''xy'', VNull]), (''d'', VNull)])
         [(''a'', VNumber 1), (''b'', VList [VNull, VBool True, VString ''x'']), (''c'', VNull)]
       = Inr [(''a'', VNumber 3), (''b'', VList [VBool True, VString ''xy'', VNull]), (''d'', VNull)]"
proof -
  have h1: "dmp_round_trip whole_text"
    by (simp add: dmp_round_trip_def whole_text_def)
  have h2: "canonical (VMapping [(''a'', VNumber 1),
      (''b'', VList [VNull, VBool True, VString ''x'']), (''c'', VNull)])"
    by (simp add: sorted_keys_def)
  have h3: "canonical (VMapping [(''a'', VNumber 3),
      (''b'', VList [VBool True, VString ''xy'', VNull]), (''d'', VNull)])"
    by (simp add: sorted_keys_def)
  have d: "object_diff whole_text
         [(''a'', VNumber 1), (''b'', VList [VNull, VBool True, VString ''x'']), (''c'', VNull)]
         [(''a'', VNumber 3), (''b'', VList [VBool True, VString ''xy'', VNull]), (''d'', VNull)]
       = [(''a'', INCREMENT 2),
          (''b'', LIST [(0, REMOVE), (2, DMP ''xy''), (3, ADD VNull)]),
          (''c'', REMOVE), (''d'', ADD VNull)]"
    by (simp add: additions_def whole_text_def)
  from object_diff_round_trip [OF h1 h2 h3] h1 h2 h3 d show ?thesis
    by (simp only: simp_thms)
qed

lemma changes_same:
  "\<forall>p \<in> set a'. map_of a (fst p) = Some (snd p) \<Longrightarrow> changes D a' a = []"
  by (induction a') auto

lemma additions_same: "additions a a = []"
proof -
  have "set (additions a a) = {}"
    by (auto simp: additions_set map_of_eq_None_iff intro: rev_image_eqI)
  then show ?thesis by simp
qed

text \<open>
  Claim C3 (identity). The diff of a mapping with itself is the empty operation set, and
  applying the empty operation set to a mapping gives the mapping. A mapping has no key
  twice.
\<close>

theorem object_diff_identity:
  assumes "distinct (map fst a)"
  shows "object_diff D a a = [] \<and> apply_object_diff D [] a = Inr a"
proof -
  from assms have "\<forall>p \<in> set a. map_of a (fst p) = Some (snd p)" by simp
  then have "changes D a a = []" by (rule changes_same)
  then show ?thesis
    by (simp add: additions_same apply_object_diff_def malformed_def)
qed

theorem object_diff_identity_witness:
  "distinct (map fst [(''content'', VString ''Hi''), (''tags'', VList [])])
   \<and> object_diff whole_text [(''content'', VString ''Hi''), (''tags'', VList [])]
        [(''content'', VString ''Hi''), (''tags'', VList [])] = []
   \<and> apply_object_diff whole_text [] [(''content'', VString ''Hi''), (''tags'', VList [])]
       = Inr [(''content'', VString ''Hi''), (''tags'', VList [])]"
proof -
  have h: "distinct (map fst [(''content'', VString ''Hi''), (''tags'', VList [])])"
    by simp
  from object_diff_identity [OF h, of whole_text] h show ?thesis
    by (simp only: simp_thms)
qed

lemma no_malformed_result:
  shows "\<not> unknown_tag op \<Longrightarrow> apply_diff D op target \<noteq> Inl MalformedOperation"
    and "\<forall>p \<in> set ops. \<not> unknown_tag (snd p) \<Longrightarrow> apply_object_ops D ops m \<noteq> Inl MalformedOperation"
    and "\<forall>p \<in> set lops. \<not> unknown_tag (snd p) \<Longrightarrow> apply_list_ops D lops s \<noteq> Inl MalformedOperation"
proof (induction D op target and D ops m and D lops s
    rule: apply_diff_apply_object_ops_apply_list_ops.induct)
  case (1 D v target)
  then show ?case by (cases target) simp_all
next
  case (2 D target)
  then show ?case by (cases target) simp_all
next
  case (3 D v target)
  then show ?case by (cases target) simp_all
next
  case (4 D n target)
  then show ?case by (auto split: option.splits Value.splits)
next
  case (5 D ops target)
  then show ?case by (auto split: option.splits Value.splits sum.splits)
next
  case (6 D ops target)
  then show ?case by (auto split: option.splits Value.splits sum.splits)
next
  case (7 D p target)
  then show ?case by (auto split: option.splits Value.splits)
next
  case (8 D t target)
  then show ?case by simp
next
  case (9 D m)
  then show ?case by simp
next
  case (10 D k op ops m)
  then show ?case by (auto split: sum.splits)
next
  case (11 D s)
  then show ?case by simp
next
  case (12 D i op ops s)
  then show ?case by (auto split: sum.splits)
qed

lemma error_is_violation:
  "\<not> unknown_tag op \<Longrightarrow> apply_diff D op target = Inl e \<Longrightarrow> e = OperationPreconditionViolated"
  using no_malformed_result(1) [of op D target] by (cases e) auto

lemma object_error_is_violation:
  "\<forall>p \<in> set ops. \<not> unknown_tag (snd p) \<Longrightarrow> apply_object_ops D ops m = Inl e
     \<Longrightarrow> e = OperationPreconditionViolated"
  using no_malformed_result(2) [of ops D m] by (cases e) auto

lemma list_error_is_violation:
  "\<forall>p \<in> set ops. \<not> unknown_tag (snd p) \<Longrightarrow> apply_list_ops D ops s = Inl e
     \<Longrightarrow> e = OperationPreconditionViolated"
  using no_malformed_result(3) [of ops D s] by (cases e) auto

lemma apply_list_ops_frame:
  "apply_list_ops D ops s = Inr s' \<Longrightarrow>
   length s' = length s \<and> (\<forall>i. i \<notin> fst ` set ops \<longrightarrow> s' ! i = s ! i)"
proof (induction ops arbitrary: s')
  case Nil
  then show ?case by simp
next
  case (Cons p ops)
  obtain i op where p: "p = (i, op)" by (cases p)
  from Cons.prems obtain s1 r where s1: "apply_list_ops D ops s = Inr s1"
    and i: "i < length s1" and s': "s' = s1[i := r]"
    by (auto simp: p split: sum.splits if_splits)
  from Cons.IH [OF s1] show ?case by (auto simp: s' p)
qed

lemma violation_detected:
  shows "unique_keys op \<Longrightarrow> \<not> unknown_tag op \<Longrightarrow> violates op target
           \<Longrightarrow> apply_diff D op target = Inl OperationPreconditionViolated"
    and "distinct (map fst ops) \<Longrightarrow> \<forall>p \<in> set ops. unique_keys (snd p) \<and> \<not> unknown_tag (snd p)
           \<Longrightarrow> \<exists>p \<in> set ops. violates (snd p) (map_of m (fst p))
           \<Longrightarrow> apply_object_ops D ops m = Inl OperationPreconditionViolated"
    and "distinct (map fst lops) \<Longrightarrow> \<forall>p \<in> set lops. unique_keys (snd p) \<and> \<not> unknown_tag (snd p)
           \<Longrightarrow> \<exists>p \<in> set lops. fst p < length s \<and> violates (snd p) (s ! fst p)
           \<Longrightarrow> apply_list_ops D lops s = Inl OperationPreconditionViolated"
proof (induction D op target and D ops m and D lops s
    rule: apply_diff_apply_object_ops_apply_list_ops.induct)
  case (1 D v target)
  then show ?case by (cases target) simp_all
next
  case (2 D target)
  then show ?case by (cases target) simp_all
next
  case (3 D v target)
  then show ?case by simp
next
  case (4 D n target)
  then show ?case by (auto split: option.splits Value.splits)
next
  case (5 D ops target)
  from "5.prems"(3) obtain m where t: "target = Some (VMapping m)"
    and v: "\<exists>p \<in> set ops. violates (snd p) (map_of m (fst p))"
    by (auto split: option.splits Value.splits)
  from "5.prems" have "distinct (map fst ops)"
    and "\<forall>p \<in> set ops. unique_keys (snd p) \<and> \<not> unknown_tag (snd p)"
    by auto
  from "5.IH" [OF t refl this v] show ?case by (simp add: t)
next
  case (6 D ops target)
  from "6.prems"(3) obtain l where t: "target = Some (VList l)"
    and v: "\<exists>p \<in> set ops. violates (snd p) (slots ops l ! fst p)"
    by (auto split: option.splits Value.splits)
  from v slots_bound [of _ ops l]
  have v': "\<exists>p \<in> set ops. fst p < length (slots ops l) \<and> violates (snd p) (slots ops l ! fst p)"
    by blast
  from "6.prems" have "distinct (map fst ops)"
    and "\<forall>p \<in> set ops. unique_keys (snd p) \<and> \<not> unknown_tag (snd p)"
    by auto
  from "6.IH" [OF t refl this v'] show ?case by (simp add: t)
next
  case (7 D p target)
  then show ?case by simp
next
  case (8 D t target)
  then show ?case by simp
next
  case (9 D m)
  then show ?case by simp
next
  case (10 D k op ops m)
  from "10.prems" have k: "k \<notin> fst ` set ops" and d: "distinct (map fst ops)"
    and u: "unique_keys op" "\<not> unknown_tag op"
    and us: "\<forall>p \<in> set ops. unique_keys (snd p) \<and> \<not> unknown_tag (snd p)"
    by auto
  show ?case
  proof (cases "violates op (map_of m k)")
    case True
    from "10.IH"(1) [OF u True] show ?thesis by simp
  next
    case False
    with "10.prems"(3) obtain p where p: "p \<in> set ops" "violates (snd p) (map_of m (fst p))"
      by auto
    with k have ne: "fst p \<noteq> k" by auto
    show ?thesis
    proof (cases "apply_diff D op (map_of m k)")
      case (Inl e)
      with error_is_violation [OF u(2) Inl] show ?thesis by simp
    next
      case (Inr r)
      from p ne have "\<exists>p \<in> set ops. violates (snd p) (map_of (put k r m) (fst p))"
        by (auto simp: map_of_put)
      from "10.IH"(2) [OF Inr d us this] Inr show ?thesis by simp
    qed
  qed
next
  case (11 D s)
  then show ?case by simp
next
  case (12 D i op ops s)
  from "12.prems" have i: "i \<notin> fst ` set ops" and d: "distinct (map fst ops)"
    and u: "unique_keys op" "\<not> unknown_tag op"
    and us: "\<forall>p \<in> set ops. unique_keys (snd p) \<and> \<not> unknown_tag (snd p)"
    by auto
  show ?case
  proof (cases "\<exists>p \<in> set ops. fst p < length s \<and> violates (snd p) (s ! fst p)")
    case True
    from "12.IH"(1) [OF d us True] show ?thesis by simp
  next
    case False
    with "12.prems"(3) have here: "i < length s" "violates op (s ! i)" by auto
    show ?thesis
    proof (cases "apply_list_ops D ops s")
      case (Inl e)
      with list_error_is_violation [OF _ Inl] us show ?thesis by simp
    next
      case (Inr s')
      from apply_list_ops_frame [OF Inr] i have "length s' = length s" "s' ! i = s ! i"
        by auto
      with here have "i < length s'" "violates op (s' ! i)" by simp_all
      from "12.IH"(2) [OF Inr this(1) u this(2)] Inr \<open>i < length s'\<close> show ?thesis by simp
    qed
  qed
qed

text \<open>
  Claim C4 (errors of \<open>apply_object_diff\<close>). An operation set that contains an unknown
  tag fails with \<open>MalformedOperation\<close>. An operation set without unknown tags, in which
  no key occurs twice, fails with \<open>OperationPreconditionViolated\<close> when one of its
  operations, at the value that the base has at its path, is \<open>REMOVE\<close> of an absent
  path, \<open>ADD\<close> to a present path or \<open>INCREMENT\<close> of a value that is not a number.
\<close>

theorem apply_object_diff_errors:
  "(malformed ops \<longrightarrow> apply_object_diff D ops base = Inl MalformedOperation)
   \<and> (\<not> malformed ops \<and> unique_keys (OBJECT ops)
        \<and> (\<exists>p \<in> set ops. violates (snd p) (map_of base (fst p)))
      \<longrightarrow> apply_object_diff D ops base = Inl OperationPreconditionViolated)"
proof (intro conjI impI)
  assume "malformed ops"
  then show "apply_object_diff D ops base = Inl MalformedOperation"
    by (simp add: apply_object_diff_def)
next
  assume a: "\<not> malformed ops \<and> unique_keys (OBJECT ops)
        \<and> (\<exists>p \<in> set ops. violates (snd p) (map_of base (fst p)))"
  then have "distinct (map fst ops)"
    and "\<forall>p \<in> set ops. unique_keys (snd p) \<and> \<not> unknown_tag (snd p)"
    and "\<exists>p \<in> set ops. violates (snd p) (map_of base (fst p))"
    by (auto simp: malformed_def)
  from violation_detected(2) [OF this] a
  show "apply_object_diff D ops base = Inl OperationPreconditionViolated"
    by (simp add: apply_object_diff_def)
qed

theorem apply_object_diff_errors_witness:
  "malformed [(''a'', OBJECT [(''b'', UNKNOWN ''x'')])]
   \<and> apply_object_diff whole_text [(''a'', OBJECT [(''b'', UNKNOWN ''x'')])] [] = Inl MalformedOperation
   \<and> \<not> malformed [(''c'', INCREMENT 1), (''n'', OBJECT [(''k'', REMOVE)])]
   \<and> unique_keys (OBJECT [(''c'', INCREMENT 1), (''n'', OBJECT [(''k'', REMOVE)])])
   \<and> (\<exists>p \<in> set [(''c'', INCREMENT 1), (''n'', OBJECT [(''k'', REMOVE)])].
         violates (snd p) (map_of [(''c'', VNumber 5), (''n'', VMapping [])] (fst p)))
   \<and> apply_object_diff whole_text [(''c'', INCREMENT 1), (''n'', OBJECT [(''k'', REMOVE)])]
        [(''c'', VNumber 5), (''n'', VMapping [])] = Inl OperationPreconditionViolated"
proof -
  have m: "malformed [(''a'', OBJECT [(''b'', UNKNOWN ''x'')])]"
    by (simp add: malformed_def)
  have h: "\<not> malformed [(''c'', INCREMENT 1), (''n'', OBJECT [(''k'', REMOVE)])]
      \<and> unique_keys (OBJECT [(''c'', INCREMENT 1), (''n'', OBJECT [(''k'', REMOVE)])])
      \<and> (\<exists>p \<in> set [(''c'', INCREMENT 1), (''n'', OBJECT [(''k'', REMOVE)])].
            violates (snd p) (map_of [(''c'', VNumber 5), (''n'', VMapping [])] (fst p)))"
    by (simp add: malformed_def)
  from apply_object_diff_errors [of "[(''a'', OBJECT [(''b'', UNKNOWN ''x'')])]" whole_text "[]"]
    apply_object_diff_errors [of "[(''c'', INCREMENT 1), (''n'', OBJECT [(''k'', REMOVE)])]"
      whole_text "[(''c'', VNumber 5), (''n'', VMapping [])]"] m h
  show ?thesis by blast
qed

lemma apply_each_frame:
  assumes "c < length h" and "apply_each D ops c h = (res, h')"
  shows "length h' = length h \<and> (\<forall>r. r \<noteq> c \<longrightarrow> h' ! r = h ! r)
       \<and> (case apply_object_ops D ops (h ! c) of
            Inl e \<Rightarrow> res = Inl e
          | Inr m \<Rightarrow> res = Inr () \<and> h' ! c = m)"
  using assms
proof (induction ops arbitrary: h)
  case Nil
  then show ?case by auto
next
  case (Cons p ops)
  obtain k op where p: "p = (k, op)" by (cases p)
  show ?case
  proof (cases "apply_diff D op (map_of (h ! c) k)")
    case (Inl e)
    with Cons.prems show ?thesis by (auto simp: p)
  next
    case (Inr r)
    let ?h1 = "h[c := put k r (h ! c)]"
    from Cons.prems Inr have run: "apply_each D ops c ?h1 = (res, h')" by (simp add: p)
    from Cons.prems(1) have c1: "c < length ?h1" by simp
    from Cons.IH [OF c1 run] Cons.prems(1) Inr show ?thesis
      by (auto simp: p)
  qed
qed

text \<open>
  Claim C5 (the base is not mutated). Running \<open>apply_object_diff\<close> on a base that is
  held by reference leaves every object that was in the heap as it was, the base among
  them; the result is a reference that was not in the heap before, and the object there is
  what \<open>apply_object_diff\<close> computes from the contents of the base.
\<close>

theorem apply_object_diff_heap_frame:
  assumes "base < length h" and "apply_object_diff_heap D ops base h = (res, h')"
  shows "(\<forall>r < length h. h' ! r = h ! r)
       \<and> (case res of
            Inl e \<Rightarrow> apply_object_diff D ops (h ! base) = Inl e
          | Inr c \<Rightarrow> length h \<le> c \<and> c < length h'
                   \<and> apply_object_diff D ops (h ! base) = Inr (h' ! c))"
proof (cases "malformed ops")
  case True
  with assms show ?thesis
    by (auto simp: apply_object_diff_heap_def apply_object_diff_def)
next
  case False
  let ?c = "length h" and ?h1 = "h @ [h ! base]"
  obtain r1 h2 where run: "apply_each D ops ?c ?h1 = (r1, h2)" by (cases "apply_each D ops ?c ?h1")
  have c: "?c < length ?h1" by simp
  from apply_each_frame [OF c run]
  have len: "length h2 = Suc (length h)"
    and frame: "\<forall>r. r \<noteq> ?c \<longrightarrow> h2 ! r = ?h1 ! r"
    and res: "(case apply_object_ops D ops (h ! base) of
        Inl e \<Rightarrow> r1 = Inl e | Inr m \<Rightarrow> r1 = Inr () \<and> h2 ! ?c = m)"
    by simp_all
  from assms(2) False run have out: "res = (case r1 of Inl e \<Rightarrow> Inl e | Inr _ \<Rightarrow> Inr ?c)" "h' = h2"
    by (auto simp: apply_object_diff_heap_def deep_copy_def split: sum.splits)
  have "\<forall>r < length h. h' ! r = h ! r"
    using frame out(2) by (simp add: nth_append)
  moreover have "case res of
      Inl e \<Rightarrow> apply_object_diff D ops (h ! base) = Inl e
    | Inr c \<Rightarrow> length h \<le> c \<and> c < length h' \<and> apply_object_diff D ops (h ! base) = Inr (h' ! c)"
    using res False len out
    by (cases "apply_object_ops D ops (h ! base)") (auto simp: apply_object_diff_def)
  ultimately show ?thesis by simp
qed

theorem apply_object_diff_heap_frame_witness:
  "(0::nat) < length [[(''c'', VNumber 5)]]
   \<and> apply_object_diff_heap whole_text [(''c'', INCREMENT 3)] 0 [[(''c'', VNumber 5)]]
       = (Inr 1, [[(''c'', VNumber 5)], [(''c'', VNumber 8)]])
   \<and> [[(''c'', VNumber 5)], [(''c'', VNumber 8)]] ! 0 = [[(''c'', VNumber 5)]] ! 0
   \<and> apply_object_diff whole_text [(''c'', INCREMENT 3)] ([[(''c'', VNumber 5)]] ! 0)
       = Inr ([[(''c'', VNumber 5)], [(''c'', VNumber 8)]] ! 1)"
proof -
  have h: "(0::nat) < length [[(''c'', VNumber 5)]]" by simp
  have run: "apply_object_diff_heap whole_text [(''c'', INCREMENT 3)] 0 [[(''c'', VNumber 5)]]
       = (Inr 1, [[(''c'', VNumber 5)], [(''c'', VNumber 8)]])"
    by (simp add: apply_object_diff_heap_def malformed_def deep_copy_def put_def)
  from apply_object_diff_heap_frame [OF h run] h run show ?thesis
    by simp
qed


subsection \<open>The transform\<close>



















section \<open>Properties of the bucket\<close>

lemma deprecateCallback_rejected:
  "deprecateCallback None (tr, Rejected e) = (tr, Rejected e)"
  "deprecateCallback (Some f) (tr, Rejected e) = (tr @ [Called f (Some e) None], Fulfilled (ErrorValue e))"
  by (simp_all add: deprecateCallback_def)

lemma deprecateCallback_twin:
  "deprecateCallback None t = (tr, Rejected e)
     \<Longrightarrow> deprecateCallback (Some f) t = (tr @ [Called f (Some e) None], Fulfilled (ErrorValue e))"
  by (simp add: deprecateCallback_def)

lemma deprecateCallback_never_rejects:
  "snd (deprecateCallback (Some f) t) \<noteq> Rejected e"
  by (cases t; cases "snd t") (auto simp: deprecateCallback_def split: promise.splits)

lemma update_eq:
  "update b i object info opts cb =
     deprecateCallback (update_callback info opts cb)
       (update_task b i object info (sync (update_options info opts)))"
  by (simp add: update_def)

lemma update_task_rejected:
  "update_task b i object info flag = (tr, Rejected e)
     \<Longrightarrow> update_task b i object info' flag = (tr, Rejected e)"
  by (auto simp: update_task_def then_promise_def storeAPI_update_def callbackAsPromise_def
      channel_update_promise_def split: sum.splits prod.splits promise.splits)

lemma rejected_goes_to_callback:
  assumes "invoke b c None = (effects, Rejected e)"
  shows "invoke b c (Some f) = (effects @ [Called f (Some e) None], Fulfilled (ErrorValue e))"
proof (cases c)
  case (Get i)
  with assms show ?thesis by (simp add: get_def deprecateCallback_twin)
next
  case (Update3 i object)
  from assms have "update_task b i object Falsy (Some True) = (effects, Rejected e)"
    by (simp add: Update3 update_eq update_callback_def update_options_def as_function_def
        deprecateCallback_def)
  then have "update_task b i object (Function f) (Some True) = (effects, Rejected e)"
    by (rule update_task_rejected)
  then show ?thesis
    by (simp add: Update3 update_eq update_callback_def update_options_def as_function_def
        deprecateCallback_def)
next
  case (Update4 i object info)
  with assms show ?thesis
    by (cases info)
      (simp_all add: update_eq update_callback_def update_options_def as_function_def
        optional_def deprecateCallback_def)
next
  case (Update5 i object info opts)
  with assms show ?thesis
    by (cases info; cases opts)
      (simp_all add: update_eq update_callback_def update_options_def optional_def
        deprecateCallback_def)
next
  case (Add uuid object)
  from assms have "update_task b uuid object Falsy (Some True) = (effects, Rejected e)"
    by (simp add: Add add_def update_eq update_callback_def update_options_def
        deprecateCallback_def)
  then have "update_task b uuid object (Function f) (Some True) = (effects, Rejected e)"
    by (rule update_task_rejected)
  then show ?thesis
    by (simp add: Add add_def update_eq update_callback_def update_options_def
        deprecateCallback_def)
next
  case (Remove i)
  with assms show ?thesis by (simp add: remove_def deprecateCallback_twin)
next
  case (Find query)
  with assms show ?thesis by (simp add: find_def deprecateCallback_twin)
next
  case (GetVersion i)
  with assms show ?thesis by (simp add: getVersion_def deprecateCallback_twin)
next
  case HasLocalChanges
  with assms show ?thesis by (simp add: hasLocalChanges_def deprecateCallback_twin)
next
  case (GetRevisions i)
  with assms show ?thesis by (simp add: getRevisions_def deprecateCallback_twin)
next
  case (Touch i)
  with assms show ?thesis by (simp add: touch_def deprecateCallback_twin)
qed

lemma callback_never_rejects: "snd (invoke b c (Some f)) \<noteq> Rejected e"
proof (cases c)
  case (Update3 i object)
  then show ?thesis
    by (simp add: update_eq update_callback_def as_function_def deprecateCallback_never_rejects)
next
  case (Update4 i object info)
  then show ?thesis
    by (cases info)
      (simp_all add: update_eq update_callback_def as_function_def optional_def
        deprecateCallback_never_rejects)
next
  case (Update5 i object info opts)
  then show ?thesis
    by (cases info; cases opts)
      (simp_all add: update_eq update_callback_def optional_def deprecateCallback_never_rejects)
next
  case (Add uuid object)
  then show ?thesis
    by (simp add: add_def update_eq update_callback_def deprecateCallback_never_rejects)
qed (simp_all add: get_def remove_def find_def getVersion_def hasLocalChanges_def
    getRevisions_def touch_def deprecateCallback_never_rejects)

lemma get_reports:
  "store_get (bucket_store b) i = Inl e \<Longrightarrow> reports_error (invoke b (Get i)) [StoreGet i] e f"
  by (simp add: reports_error_def get_def storeAPI_get_def callbackAsPromise_def then_promise_def
      deprecateCallback_def)

lemma find_reports:
  "store_find (bucket_store b) query = Inl e
     \<Longrightarrow> reports_error (invoke b (Find query)) [StoreFind query] e f"
  by (simp add: reports_error_def find_def storeAPI_find_def callbackAsPromise_def
      deprecateCallback_def)

lemma remove_reports:
  "store_remove (bucket_store b) i = Inl e
     \<Longrightarrow> reports_error (invoke b (Remove i)) [StoreRemove i] e f"
  by (simp add: reports_error_def remove_def storeAPI_remove_def callbackAsPromise_def
      then_promise_def deprecateCallback_def)

lemma getVersion_reports:
  "channel_getVersion (bucket_channel b) i = Inl e
     \<Longrightarrow> reports_error (invoke b (GetVersion i)) [ChannelGetVersion i] e f"
  by (simp add: reports_error_def getVersion_def channel_promise_def deprecateCallback_def)

lemma getRevisions_reports:
  "channel_getRevisions (bucket_channel b) i = Inl e
     \<Longrightarrow> reports_error (invoke b (GetRevisions i)) [ChannelGetRevisions i] e f"
  by (simp add: reports_error_def getRevisions_def channel_promise_def deprecateCallback_def)

lemma hasLocalChanges_reports:
  "channel_hasLocalChanges (bucket_channel b) = Inl e
     \<Longrightarrow> reports_error (invoke b HasLocalChanges) [ChannelHasLocalChanges] e f"
  by (simp add: reports_error_def hasLocalChanges_def channel_promise_def deprecateCallback_def)

lemma update_task_store_fails:
  "store_update (bucket_store b) i object (isIndexing b) = Inl e
     \<Longrightarrow> update_task b i object info flag = ([StoreUpdate i object (isIndexing b)], Rejected e)"
  by (simp add: update_task_def then_promise_def storeAPI_update_def callbackAsPromise_def)

lemma update_task_channel_fails:
  "store_update (bucket_store b) i object (isIndexing b) = Inr stored
     \<Longrightarrow> channel_update (bucket_channel b) stored flag = Inl e
     \<Longrightarrow> update_task b i object info flag
           = ([StoreUpdate i object (isIndexing b), ChannelUpdate stored flag], Rejected e)"
  by (simp add: update_task_def then_promise_def storeAPI_update_def callbackAsPromise_def
      channel_update_promise_def)

lemma update_reports:
  assumes "\<And>info. update_task b i object info (Some True) = (calls, Rejected e)"
  shows "reports_error (invoke b (Update3 i object)) calls e f"
    and "reports_error (invoke b (Update4 i object given)) calls e f"
    and "reports_error (invoke b (Update5 i object given None)) calls e f"
    and "reports_error (invoke b (Add i object)) calls e f"
  using assms
  by (cases given;
      simp add: reports_error_def update_def add_def update_callback_def update_options_def
        as_function_def optional_def deprecateCallback_def)+

lemma update5_reports:
  assumes "\<And>info. update_task b i object info (sync opts) = (calls, Rejected e)"
  shows "reports_error (invoke b (Update5 i object given (Some opts))) calls e f"
  using assms
  by (cases given;
      simp add: reports_error_def update_def update_callback_def update_options_def
        optional_def deprecateCallback_def)

lemma touch_reports_get:
  "store_get (bucket_store b) i = Inl e \<Longrightarrow> reports_error (invoke b (Touch i)) [StoreGet i] e f"
  by (simp add: reports_error_def touch_def storeAPI_get_def callbackAsPromise_def then_promise_def
      deprecateCallback_def)

lemma touch_reports_update:
  assumes "store_get (bucket_store b) i = Inr (Some x)"
    and "update_task b (bo_id x) (bo_data x) Falsy (Some True) = (calls, Rejected e)"
  shows "reports_error (invoke b (Touch i)) (StoreGet i # calls) e f"
  using assms
  by (simp add: reports_error_def touch_def storeAPI_get_def callbackAsPromise_def then_promise_def
      update_def update_callback_def update_options_def deprecateCallback_def)

text \<open>
  Claim C10 (errors with a callback). For each of the nine operations, a failure of the
  store or of the channel is reported: without a callback the operation's promise is
  rejected with the error; with a callback the callback is called with the error as its
  first argument and the promise is fulfilled with the error value, not rejected. The
  failures are: the store's \<open>get\<close> for \<open>get\<close> and \<open>touch\<close>, its \<open>find\<close> for \<open>find\<close>, its
  \<open>remove\<close> for \<open>remove\<close>, the channel's \<open>getVersion\<close>, \<open>getRevisions\<close> and
  \<open>hasLocalChanges\<close> for the operations of these names, and for \<open>update\<close> (with the
  callback in each of its three positions), \<open>add\<close> and the update that \<open>touch\<close> makes,
  the store's \<open>update\<close> or, after it, the channel's \<open>update\<close>. Moreover, whenever an
  operation called without a callback ends in a rejected promise, then called with a
  callback it has the same effects followed by one call of the callback with the error,
  and its promise is fulfilled with the error value; with a callback the promise of an
  operation is never rejected.
\<close>

theorem callback_receives_error:
  "(\<forall>effects e. invoke b c None = (effects, Rejected e) \<longrightarrow>
      invoke b c (Some f) = (effects @ [Called f (Some e) None], Fulfilled (ErrorValue e)))
   \<and> (\<forall>e. snd (invoke b c (Some f)) \<noteq> Rejected e)
   \<and> (store_get (bucket_store b) i = Inl e \<longrightarrow>
        reports_error (invoke b (Get i)) [StoreGet i] e f
        \<and> reports_error (invoke b (Touch i)) [StoreGet i] e f)
   \<and> (store_find (bucket_store b) query = Inl e \<longrightarrow>
        reports_error (invoke b (Find query)) [StoreFind query] e f)
   \<and> (store_remove (bucket_store b) i = Inl e \<longrightarrow>
        reports_error (invoke b (Remove i)) [StoreRemove i] e f)
   \<and> (channel_getVersion (bucket_channel b) i = Inl e \<longrightarrow>
        reports_error (invoke b (GetVersion i)) [ChannelGetVersion i] e f)
   \<and> (channel_getRevisions (bucket_channel b) i = Inl e \<longrightarrow>
        reports_error (invoke b (GetRevisions i)) [ChannelGetRevisions i] e f)
   \<and> (channel_hasLocalChanges (bucket_channel b) = Inl e \<longrightarrow>
        reports_error (invoke b HasLocalChanges) [ChannelHasLocalChanges] e f)
   \<and> (store_update (bucket_store b) i object (isIndexing b) = Inl e \<longrightarrow>
        reports_error (invoke b (Update3 i object)) [StoreUpdate i object (isIndexing b)] e f
        \<and> reports_error (invoke b (Update4 i object info)) [StoreUpdate i object (isIndexing b)] e f
        \<and> reports_error (invoke b (Update5 i object info opts))
            [StoreUpdate i object (isIndexing b)] e f
        \<and> reports_error (invoke b (Add i object)) [StoreUpdate i object (isIndexing b)] e f)
   \<and> (store_update (bucket_store b) i object (isIndexing b) = Inr stored
        \<and> channel_update (bucket_channel b) stored (Some True) = Inl e \<longrightarrow>
        reports_error (invoke b (Update3 i object))
          [StoreUpdate i object (isIndexing b), ChannelUpdate stored (Some True)] e f
        \<and> reports_error (invoke b (Update4 i object info))
            [StoreUpdate i object (isIndexing b), ChannelUpdate stored (Some True)] e f
        \<and> reports_error (invoke b (Update5 i object info None))
            [StoreUpdate i object (isIndexing b), ChannelUpdate stored (Some True)] e f
        \<and> reports_error (invoke b (Add i object))
            [StoreUpdate i object (isIndexing b), ChannelUpdate stored (Some True)] e f)
   \<and> (store_update (bucket_store b) i object (isIndexing b) = Inr stored
        \<and> channel_update (bucket_channel b) stored (sync given) = Inl e \<longrightarrow>
        reports_error (invoke b (Update5 i object info (Some given)))
          [StoreUpdate i object (isIndexing b), ChannelUpdate stored (sync given)] e f)
   \<and> (store_get (bucket_store b) i = Inr (Some x)
        \<and> store_update (bucket_store b) (bo_id x) (bo_data x) (isIndexing b) = Inl e \<longrightarrow>
        reports_error (invoke b (Touch i))
          [StoreGet i, StoreUpdate (bo_id x) (bo_data x) (isIndexing b)] e f)
   \<and> (store_get (bucket_store b) i = Inr (Some x)
        \<and> store_update (bucket_store b) (bo_id x) (bo_data x) (isIndexing b) = Inr touched
        \<and> channel_update (bucket_channel b) touched (Some True) = Inl e \<longrightarrow>
        reports_error (invoke b (Touch i))
          [StoreGet i, StoreUpdate (bo_id x) (bo_data x) (isIndexing b),
           ChannelUpdate touched (Some True)] e f)"
proof (intro conjI impI allI)
  fix effects e'
  assume "invoke b c None = (effects, Rejected e')"
  then show "invoke b c (Some f) = (effects @ [Called f (Some e') None], Fulfilled (ErrorValue e'))"
    by (rule rejected_goes_to_callback)
next
  fix e'
  show "snd (invoke b c (Some f)) \<noteq> Rejected e'" by (rule callback_never_rejects)
next
  assume "store_get (bucket_store b) i = Inl e"
  then show "reports_error (invoke b (Get i)) [StoreGet i] e f"
    and "reports_error (invoke b (Touch i)) [StoreGet i] e f"
    by (rule get_reports, rule touch_reports_get)
next
  assume "store_find (bucket_store b) query = Inl e"
  then show "reports_error (invoke b (Find query)) [StoreFind query] e f" by (rule find_reports)
next
  assume "store_remove (bucket_store b) i = Inl e"
  then show "reports_error (invoke b (Remove i)) [StoreRemove i] e f" by (rule remove_reports)
next
  assume "channel_getVersion (bucket_channel b) i = Inl e"
  then show "reports_error (invoke b (GetVersion i)) [ChannelGetVersion i] e f"
    by (rule getVersion_reports)
next
  assume "channel_getRevisions (bucket_channel b) i = Inl e"
  then show "reports_error (invoke b (GetRevisions i)) [ChannelGetRevisions i] e f"
    by (rule getRevisions_reports)
next
  assume "channel_hasLocalChanges (bucket_channel b) = Inl e"
  then show "reports_error (invoke b HasLocalChanges) [ChannelHasLocalChanges] e f"
    by (rule hasLocalChanges_reports)
next
  assume "store_update (bucket_store b) i object (isIndexing b) = Inl e"
  then have t: "\<And>info flag. update_task b i object info flag
      = ([StoreUpdate i object (isIndexing b)], Rejected e)"
    by (rule update_task_store_fails)
  show "reports_error (invoke b (Update3 i object)) [StoreUpdate i object (isIndexing b)] e f"
    and "reports_error (invoke b (Update4 i object info)) [StoreUpdate i object (isIndexing b)] e f"
    and "reports_error (invoke b (Add i object)) [StoreUpdate i object (isIndexing b)] e f"
    using t by (rule update_reports)+
  show "reports_error (invoke b (Update5 i object info opts)) [StoreUpdate i object (isIndexing b)] e f"
  proof (cases opts)
    case None
    show ?thesis unfolding None by (rule update_reports(3)) (rule t)
  next
    case (Some given)
    show ?thesis unfolding Some by (rule update5_reports) (rule t)
  qed
next
  assume a: "store_update (bucket_store b) i object (isIndexing b) = Inr stored
      \<and> channel_update (bucket_channel b) stored (Some True) = Inl e"
  then have t: "\<And>info. update_task b i object info (Some True)
      = ([StoreUpdate i object (isIndexing b), ChannelUpdate stored (Some True)], Rejected e)"
    by (simp add: update_task_channel_fails)
  show "reports_error (invoke b (Update3 i object))
          [StoreUpdate i object (isIndexing b), ChannelUpdate stored (Some True)] e f"
    and "reports_error (invoke b (Update4 i object info))
            [StoreUpdate i object (isIndexing b), ChannelUpdate stored (Some True)] e f"
    and "reports_error (invoke b (Update5 i object info None))
            [StoreUpdate i object (isIndexing b), ChannelUpdate stored (Some True)] e f"
    and "reports_error (invoke b (Add i object))
            [StoreUpdate i object (isIndexing b), ChannelUpdate stored (Some True)] e f"
    using t by (rule update_reports)+
next
  assume a: "store_update (bucket_store b) i object (isIndexing b) = Inr stored
      \<and> channel_update (bucket_channel b) stored (sync given) = Inl e"
  then have "\<And>info. update_task b i object info (sync given)
      = ([StoreUpdate i object (isIndexing b), ChannelUpdate stored (sync given)], Rejected e)"
    by (simp add: update_task_channel_fails)
  then show "reports_error (invoke b (Update5 i object info (Some given)))
          [StoreUpdate i object (isIndexing b), ChannelUpdate stored (sync given)] e f"
    by (rule update5_reports)
next
  assume a: "store_get (bucket_store b) i = Inr (Some x)
      \<and> store_update (bucket_store b) (bo_id x) (bo_data x) (isIndexing b) = Inl e"
  then have "update_task b (bo_id x) (bo_data x) Falsy (Some True)
      = ([StoreUpdate (bo_id x) (bo_data x) (isIndexing b)], Rejected e)"
    by (simp add: update_task_store_fails)
  with a show "reports_error (invoke b (Touch i))
          [StoreGet i, StoreUpdate (bo_id x) (bo_data x) (isIndexing b)] e f"
    by (simp add: touch_reports_update)
next
  assume a: "store_get (bucket_store b) i = Inr (Some x)
      \<and> store_update (bucket_store b) (bo_id x) (bo_data x) (isIndexing b) = Inr touched
      \<and> channel_update (bucket_channel b) touched (Some True) = Inl e"
  then have "update_task b (bo_id x) (bo_data x) Falsy (Some True)
      = ([StoreUpdate (bo_id x) (bo_data x) (isIndexing b), ChannelUpdate touched (Some True)],
         Rejected e)"
    by (simp add: update_task_channel_fails)
  with a show "reports_error (invoke b (Touch i))
          [StoreGet i, StoreUpdate (bo_id x) (bo_data x) (isIndexing b),
           ChannelUpdate touched (Some True)] e f"
    by (simp add: touch_reports_update)
qed


theorem callback_receives_error_witness:
  "reports_error (invoke (example_bucket (failing_store (Error ''disk full''))) (Get ''note''))
     [StoreGet ''note''] (Error ''disk full'') (Callback 1)
   \<and> reports_error (invoke (example_bucket (failing_store (Error ''disk full''))) (Touch ''note''))
       [StoreGet ''note''] (Error ''disk full'') (Callback 1)
   \<and> reports_error (invoke (example_bucket (failing_store (Error ''disk full''))) (Find (Json VNull)))
       [StoreFind (Json VNull)] (Error ''disk full'') (Callback 1)
   \<and> reports_error (invoke (example_bucket (failing_store (Error ''disk full''))) (Remove ''note''))
       [StoreRemove ''note''] (Error ''disk full'') (Callback 1)
   \<and> reports_error
       (invoke (example_bucket (failing_store (Error ''disk full''))) (Update3 ''note'' hola))
       [StoreUpdate ''note'' hola False] (Error ''disk full'') (Callback 1)
   \<and> reports_error
       (invoke (example_bucket (failing_store (Error ''disk full''))) (Update4 ''note'' hola None))
       [StoreUpdate ''note'' hola False] (Error ''disk full'') (Callback 1)
   \<and> reports_error
       (invoke (example_bucket (failing_store (Error ''disk full'')))
          (Update5 ''note'' hola None (Some \<lparr> sync = Some False \<rparr>)))
       [StoreUpdate ''note'' hola False] (Error ''disk full'') (Callback 1)
   \<and> reports_error
       (invoke (example_bucket (failing_store (Error ''disk full''))) (Add ''note'' hola))
       [StoreUpdate ''note'' hola False] (Error ''disk full'') (Callback 1)
   \<and> reports_error
       (invoke (offline_bucket (memory_store [(''note'', hola)]) (Error ''offline''))
          (GetVersion ''note''))
       [ChannelGetVersion ''note''] (Error ''offline'') (Callback 1)
   \<and> reports_error
       (invoke (offline_bucket (memory_store [(''note'', hola)]) (Error ''offline''))
          (GetRevisions ''note''))
       [ChannelGetRevisions ''note''] (Error ''offline'') (Callback 1)
   \<and> reports_error
       (invoke (offline_bucket (memory_store [(''note'', hola)]) (Error ''offline''))
          HasLocalChanges)
       [ChannelHasLocalChanges] (Error ''offline'') (Callback 1)
   \<and> reports_error
       (invoke (offline_bucket (memory_store [(''note'', hola)]) (Error ''offline''))
          (Update3 ''note'' hola))
       [StoreUpdate ''note'' hola False,
        ChannelUpdate \<lparr> bo_id = ''note'', bo_data = hola, bo_isIndexing = False \<rparr> (Some True)]
       (Error ''offline'') (Callback 1)
   \<and> reports_error
       (invoke (offline_bucket (memory_store [(''note'', hola)]) (Error ''offline''))
          (Update4 ''note'' hola None))
       [StoreUpdate ''note'' hola False,
        ChannelUpdate \<lparr> bo_id = ''note'', bo_data = hola, bo_isIndexing = False \<rparr> (Some True)]
       (Error ''offline'') (Callback 1)
   \<and> reports_error
       (invoke (offline_bucket (memory_store [(''note'', hola)]) (Error ''offline''))
          (Update5 ''note'' hola None None))
       [StoreUpdate ''note'' hola False,
        ChannelUpdate \<lparr> bo_id = ''note'', bo_data = hola, bo_isIndexing = False \<rparr> (Some True)]
       (Error ''offline'') (Callback 1)
   \<and> reports_error
       (invoke (offline_bucket (memory_store [(''note'', hola)]) (Error ''offline''))
          (Add ''note'' hola))
       [StoreUpdate ''note'' hola False,
        ChannelUpdate \<lparr> bo_id = ''note'', bo_data = hola, bo_isIndexing = False \<rparr> (Some True)]
       (Error ''offline'') (Callback 1)
   \<and> reports_error
       (invoke (offline_bucket (memory_store [(''note'', hola)]) (Error ''offline''))
          (Update5 ''note'' hola None (Some \<lparr> sync = Some False \<rparr>)))
       [StoreUpdate ''note'' hola False,
        ChannelUpdate \<lparr> bo_id = ''note'', bo_data = hola, bo_isIndexing = False \<rparr> (Some False)]
       (Error ''offline'') (Callback 1)
   \<and> reports_error
       (invoke (offline_bucket (memory_store [(''note'', hola)]) (Error ''offline''))
          (Touch ''note''))
       [StoreGet ''note'', StoreUpdate ''note'' hola False,
        ChannelUpdate \<lparr> bo_id = ''note'', bo_data = hola, bo_isIndexing = False \<rparr> (Some True)]
       (Error ''offline'') (Callback 1)
   \<and> reports_error
       (invoke (example_bucket (read_only_store [(''note'', hola)] (Error ''read only'')))
          (Touch ''note''))
       [StoreGet ''note'', StoreUpdate ''note'' hola False] (Error ''read only'') (Callback 1)
   \<and> snd (invoke (example_bucket (failing_store (Error ''disk full''))) (Get ''note'')
            (Some (Callback 1)))
       \<noteq> Rejected (Error ''disk full'')"
proof -
  note store_fails = callback_receives_error
    [where b = "example_bucket (failing_store (Error ''disk full''))" and c = "Get ''note''"
       and f = "Callback 1" and i = "''note''" and object = hola and query = "Json VNull"
       and e = "Error ''disk full''" and info = None
       and opts = "Some \<lparr> sync = Some False \<rparr>"]
  note channel_fails = callback_receives_error
    [where b = "offline_bucket (memory_store [(''note'', hola)]) (Error ''offline'')"
       and f = "Callback 1" and i = "''note''" and object = hola
       and e = "Error ''offline''" and info = None
       and stored = "\<lparr> bo_id = ''note'', bo_data = hola, bo_isIndexing = False \<rparr>"
       and given = "\<lparr> sync = Some False \<rparr>"
       and x = "\<lparr> bo_id = ''note'', bo_data = hola, bo_isIndexing = False \<rparr>"
       and touched = "\<lparr> bo_id = ''note'', bo_data = hola, bo_isIndexing = False \<rparr>"]
  note write_fails = callback_receives_error
    [where b = "example_bucket (read_only_store [(''note'', hola)] (Error ''read only''))"
       and f = "Callback 1" and i = "''note''"
       and e = "Error ''read only''"
       and x = "\<lparr> bo_id = ''note'', bo_data = hola, bo_isIndexing = False \<rparr>"]
  from store_fails channel_fails write_fails show ?thesis
    by (simp add: example_bucket_def offline_bucket_def failing_store_def failing_channel_def
        memory_store_def read_only_store_def)
qed



lemma localStateForKey_eq:
  "localStateForKey b i =
     ([StoreGet i],
      case store_get (bucket_store b) i of
        Inl e \<Rightarrow> Rejected e
      | Inr None \<Rightarrow> Fulfilled Undefined
      | Inr (Some x) \<Rightarrow> Fulfilled (Json (bo_data x)))"
  by (auto simp: localStateForKey_def get_def deprecateCallback_def then_promise_def
      storeAPI_get_def callbackAsPromise_def object_value_def split: sum.splits option.splits)

text \<open>
  Claim C8, as amended (the change resolver). With a resolver installed, an inbound change
  calls the resolver before anything else happens. A truthy answer of the resolver is the
  local state and the store is not read. For any other answer (\<open>null\<close>, \<open>undefined\<close>,
  \<open>false\<close>, \<open>0\<close>, the empty string) the store is read and the local state is the data
  of the stored object. The store is read exactly when the answer is not truthy.
\<close>

theorem resolver_before_network_change:
  assumes "changeResolver b = Some resolver"
  shows "(\<forall>v. resolver i object base patch = Inr v \<and> truthy v \<longrightarrow>
            networkChangeSubscriber b i object base patch
              = ([Resolver i object base patch], Fulfilled v))
       \<and> (\<forall>v. resolver i object base patch = Inr v \<and> \<not> truthy v \<longrightarrow>
            networkChangeSubscriber b i object base patch
              = ([Resolver i object base patch, StoreGet i],
                 case store_get (bucket_store b) i of
                   Inl e \<Rightarrow> Rejected e
                 | Inr None \<Rightarrow> Fulfilled Undefined
                 | Inr (Some x) \<Rightarrow> Fulfilled (Json (bo_data x))))
       \<and> (StoreGet i \<in> set (fst (networkChangeSubscriber b i object base patch))
            \<longleftrightarrow> (\<exists>v. resolver i object base patch = Inr v \<and> \<not> truthy v))
       \<and> (\<exists>rest. fst (receive_network_change b i object base patch)
               = Resolver i object base patch # rest)
       \<and> (\<forall>v. resolver i object base patch = Inr v \<and> truthy v \<longrightarrow>
            fst (receive_network_change b i object base patch)
              = Resolver i object base patch
                  # fst (onChannelUpdate b i object v patch (isIndexing b)))"
proof (intro conjI allI impI)
  fix v assume "resolver i object base patch = Inr v \<and> truthy v"
  with assms show "fst (receive_network_change b i object base patch)
      = Resolver i object base patch # fst (onChannelUpdate b i object v patch (isIndexing b))"
    by (simp add: receive_network_change_def networkChangeSubscriber_def then_promise_def
        split: prod.splits)
next
  fix v assume "resolver i object base patch = Inr v \<and> truthy v"
  with assms show "networkChangeSubscriber b i object base patch
      = ([Resolver i object base patch], Fulfilled v)"
    by (simp add: networkChangeSubscriber_def then_promise_def)
next
  fix v assume "resolver i object base patch = Inr v \<and> \<not> truthy v"
  with assms show "networkChangeSubscriber b i object base patch
      = ([Resolver i object base patch, StoreGet i],
         case store_get (bucket_store b) i of
           Inl e \<Rightarrow> Rejected e
         | Inr None \<Rightarrow> Fulfilled Undefined
         | Inr (Some x) \<Rightarrow> Fulfilled (Json (bo_data x)))"
    by (simp add: networkChangeSubscriber_def then_promise_def localStateForKey_eq)
next
  from assms show "StoreGet i \<in> set (fst (networkChangeSubscriber b i object base patch))
      \<longleftrightarrow> (\<exists>v. resolver i object base patch = Inr v \<and> \<not> truthy v)"
    by (cases "resolver i object base patch")
      (auto simp: networkChangeSubscriber_def then_promise_def localStateForKey_eq)
next
  show "\<exists>rest. fst (receive_network_change b i object base patch)
               = Resolver i object base patch # rest"
  proof (cases "resolver i object base patch")
    case (Inl e)
    with assms have "receive_network_change b i object base patch
        = ([Resolver i object base patch], Rejected e)"
      by (simp add: receive_network_change_def networkChangeSubscriber_def then_promise_def)
    then show ?thesis by simp
  next
    case (Inr v)
    with assms have "\<exists>tr p. networkChangeSubscriber b i object base patch
        = (Resolver i object base patch # tr, p)"
      by (cases "truthy v")
        (simp_all add: networkChangeSubscriber_def then_promise_def localStateForKey_eq)
    then obtain tr p where "networkChangeSubscriber b i object base patch
        = (Resolver i object base patch # tr, p)" by blast
    then show ?thesis
      by (cases p) (auto simp: receive_network_change_def then_promise_def split: prod.splits)
  qed
qed

theorem resolver_before_network_change_witness:
  "changeResolver (beforeNetworkChange (example_bucket (memory_store [(''note'', hola)]))
      (Some (answering (Json (VMapping [(''content'', VString ''local'')])))))
     = Some (answering (Json (VMapping [(''content'', VString ''local'')])))
   \<and> networkChangeSubscriber
        (beforeNetworkChange (example_bucket (memory_store [(''note'', hola)]))
          (Some (answering (Json (VMapping [(''content'', VString ''local'')])))))
        ''note'' hola hola []
       = ([Resolver ''note'' hola hola []],
          Fulfilled (Json (VMapping [(''content'', VString ''local'')])))
   \<and> networkChangeSubscriber
        (beforeNetworkChange (example_bucket (memory_store [(''note'', hola)]))
          (Some (answering (Json VNull))))
        ''note'' hola hola []
       = ([Resolver ''note'' hola hola [], StoreGet ''note''], Fulfilled (Json hola))"
proof -
  let ?local = "Json (VMapping [(''content'', VString ''local'')])"
  let ?b = "\<lambda>v. beforeNetworkChange (example_bucket (memory_store [(''note'', hola)]))
      (Some (answering v))"
  have r: "\<And>v. changeResolver (?b v) = Some (answering v)"
    by (simp add: beforeNetworkChange_def example_bucket_def)
  have t: "answering ?local ''note'' hola hola [] = Inr ?local \<and> truthy ?local"
    by (simp add: answering_def)
  have f: "answering (Json VNull) ''note'' hola hola [] = Inr (Json VNull) \<and> \<not> truthy (Json VNull)"
    by (simp add: answering_def)
  from resolver_before_network_change [OF r, of ?local "''note''" hola hola "[]"] t
  have 1: "networkChangeSubscriber (?b ?local) ''note'' hola hola []
      = ([Resolver ''note'' hola hola []], Fulfilled ?local)"
    by blast
  from resolver_before_network_change [OF r, of "Json VNull" "''note''" hola hola "[]"] f
  have "networkChangeSubscriber (?b (Json VNull)) ''note'' hola hola []
      = ([Resolver ''note'' hola hola [], StoreGet ''note''],
         case store_get (bucket_store (?b (Json VNull))) ''note'' of
           Inl e \<Rightarrow> Rejected e
         | Inr None \<Rightarrow> Fulfilled Undefined
         | Inr (Some x) \<Rightarrow> Fulfilled (Json (bo_data x)))"
    by blast
  then have 2: "networkChangeSubscriber (?b (Json VNull)) ''note'' hola hola []
      = ([Resolver ''note'' hola hola [], StoreGet ''note''], Fulfilled (Json hola))"
    by (simp add: beforeNetworkChange_def example_bucket_def memory_store_def)
  from r [of ?local] 1 2 show ?thesis by simp
qed

text \<open>
  The claim as the specification words it fails: a resolver that answers \<open>false\<close>, or
  one that returns nothing, has not returned \<open>null\<close>, and yet the store is read and the
  local state is the value of the store and not the answer.
\<close>

theorem store_value_used_without_null:
  "networkChangeSubscriber
      (beforeNetworkChange (example_bucket (memory_store [(''note'', hola)]))
        (Some (answering (Json (VBool False)))))
      ''note'' hola hola []
     = ([Resolver ''note'' hola hola [], StoreGet ''note''], Fulfilled (Json hola))
   \<and> \<not> (StoreGet ''note'' \<in> set (fst (networkChangeSubscriber
          (beforeNetworkChange (example_bucket (memory_store [(''note'', hola)]))
            (Some (answering (Json (VBool False)))))
          ''note'' hola hola []))
        \<longleftrightarrow> answering (Json (VBool False)) ''note'' hola hola [] = Inr (Json VNull))
   \<and> networkChangeSubscriber
      (beforeNetworkChange (example_bucket (memory_store [(''note'', hola)]))
        (Some (answering Undefined)))
      ''note'' hola hola []
     = ([Resolver ''note'' hola hola [], StoreGet ''note''], Fulfilled (Json hola))
   \<and> \<not> (StoreGet ''note'' \<in> set (fst (networkChangeSubscriber
          (beforeNetworkChange (example_bucket (memory_store [(''note'', hola)]))
            (Some (answering Undefined)))
          ''note'' hola hola []))
        \<longleftrightarrow> answering Undefined ''note'' hola hola [] = Inr (Json VNull))"
  by (simp add: networkChangeSubscriber_def localStateForKey_def get_def storeAPI_get_def
      callbackAsPromise_def then_promise_def deprecateCallback_def object_value_def
      beforeNetworkChange_def example_bucket_def memory_store_def answering_def)

lemma touch_effects:
  "fst (touch b i cb) =
     StoreGet i #
       (case store_get (bucket_store b) i of
          Inl e \<Rightarrow> after_callback cb (Inl e)
        | Inr None \<Rightarrow> after_callback cb (Inr Undefined)
        | Inr (Some x) \<Rightarrow>
            fst (update b (bo_id x) (bo_data x) Falsy Falsy None) @
              after_callback cb
                (case snd (update b (bo_id x) (bo_data x) Falsy Falsy None) of
                   Rejected e \<Rightarrow> Inl e
                 | Fulfilled result \<Rightarrow> Inr result))"
  by (cases cb)
    (auto simp: touch_def then_promise_def storeAPI_get_def callbackAsPromise_def
      deprecateCallback_def after_callback_def split: sum.splits option.splits prod.splits promise.splits)

text \<open>
  Claim C7, as amended (pass-through). \<open>getVersion\<close>, \<open>getRevisions\<close> and \<open>reload\<close>
  are one call of the channel and answer what the channel answers. \<open>touch\<close> is not a
  pass-through: it reads the object from the store and, when the store has it, hands its
  identifier and data to \<open>update\<close>; when the store has no such object or fails, the
  channel is not called.
\<close>

theorem channel_pass_through:
  "pass_through (fst (getVersion b i None))
   \<and> getVersion b i None
       = channel_promise (ChannelGetVersion i) (channel_getVersion (bucket_channel b) i)
   \<and> pass_through (fst (getRevisions b i None))
   \<and> getRevisions b i None
       = channel_promise (ChannelGetRevisions i) (channel_getRevisions (bucket_channel b) i)
   \<and> pass_through (reload b)
   \<and> \<not> pass_through (fst (touch b i cb))
   \<and> fst (touch b i None) =
       StoreGet i #
         (case store_get (bucket_store b) i of
            Inl e \<Rightarrow> []
          | Inr None \<Rightarrow> []
          | Inr (Some x) \<Rightarrow> fst (update b (bo_id x) (bo_data x) Falsy Falsy None))"
proof (intro conjI)
  show "\<not> pass_through (fst (touch b i cb))"
    by (simp add: touch_effects pass_through_def split: list.splits)
  show "fst (touch b i None) =
       StoreGet i #
         (case store_get (bucket_store b) i of
            Inl e \<Rightarrow> []
          | Inr None \<Rightarrow> []
          | Inr (Some x) \<Rightarrow> fst (update b (bo_id x) (bo_data x) Falsy Falsy None))"
    by (simp add: touch_effects after_callback_def split: sum.splits option.splits)
qed (simp_all add: getVersion_def getRevisions_def reload_def deprecateCallback_def
    channel_promise_def pass_through_def)

text \<open>
  The claim as the specification words it fails for \<open>touch\<close>: with the note in the store
  it reads and writes the store and emits an event besides calling the channel, and
  with an empty store it does not call the channel at all.
\<close>

theorem touch_is_no_pass_through:
  "fst (touch (example_bucket (memory_store [(''note'', hola)])) ''note'' None)
     = [StoreGet ''note'',
        StoreUpdate ''note'' hola False,
        ChannelUpdate \<lparr> bo_id = ''note'', bo_data = hola, bo_isIndexing = False \<rparr> (Some True),
        Emit (EvUpdate ''note'' hola Falsy)]
   \<and> \<not> pass_through (fst (touch (example_bucket (memory_store [(''note'', hola)])) ''note'' None))
   \<and> fst (touch (example_bucket (memory_store [])) ''note'' None) = [StoreGet ''note'']
   \<and> \<not> pass_through (fst (touch (example_bucket (memory_store [])) ''note'' None))"
  by (simp add: touch_def update_def update_task_def then_promise_def storeAPI_get_def storeAPI_update_def
      callbackAsPromise_def channel_update_promise_def deprecateCallback_def
      update_callback_def update_options_def
      example_bucket_def memory_store_def echo_channel_def pass_through_def)

end
